theory Spec2Isabelle
  imports Main "HOL-Library.Word"
begin

section \<open>Undefined behaviour as error values, loops\<close>

text \<open>
  The C++ sources index vectors with the unchecked \<^verbatim>\<open>operator[]\<close> and divide by container
  sizes. Where the index is out of range or the divisor is zero the behaviour of the program
  is undefined; the model returns an error value there, so every such place is a branch.
  \<open>CellOutOfRange\<close> is an access \<^verbatim>\<open>maze[x][y]\<close> (or \<^verbatim>\<open>data[x][y]\<close>) outside the grid,
  \<open>BucketOutOfRange\<close> an access outside the bucket vector of Kruskal's generator.
\<close>

datatype error = CellOutOfRange | BucketOutOfRange | DivisionByZero

definition and_then :: "error + 'a \<Rightarrow> ('a \<Rightarrow> error + 'b) \<Rightarrow> error + 'b" where
  "and_then m f = (case m of Inl e \<Rightarrow> Inl e | Inr a \<Rightarrow> f a)"

text \<open>A \<^verbatim>\<open>for\<close> loop over the index values \<open>js\<close>, the body run on the state in turn.\<close>

fun for_each :: "'a list \<Rightarrow> ('a \<Rightarrow> 's \<Rightarrow> error + 's) \<Rightarrow> 's \<Rightarrow> error + 's" where
  "for_each [] body s = Inr s"
| "for_each (j # js) body s = and_then (body j s) (for_each js body)"

lemma and_then_simps [simp]:
  "and_then (Inl e) f = Inl e"
  "and_then (Inr a) f = f a"
  by (simp_all add: and_then_def)

lemma and_then_eq_Inr:
  "and_then m f = Inr b \<longleftrightarrow> (\<exists>a. m = Inr a \<and> f a = Inr b)"
  by (cases m) simp_all

section \<open>Grid (grid.hxx)\<close>

text \<open>
  A \<^verbatim>\<open>std::shared_ptr<Cell>\<close> is modelled by the coordinates the cell was constructed
  with: \<^verbatim>\<open>Init\<close> builds exactly one \<^verbatim>\<open>Cell(x, y)\<close> for each position, and the fields
  \<^verbatim>\<open>x\<close> and \<^verbatim>\<open>y\<close> are \<^verbatim>\<open>const\<close>, so the pair identifies the object; \<open>fst\<close> and
  \<open>snd\<close> read the two fields. The mutable part of a cell (its connection set and its
  \<^verbatim>\<open>info\<close>) lives in the store \<open>cells\<close> of the grid, so that a change made through one
  pointer is seen through every other pointer to the same cell. \<open>data\<close> is the vector of
  columns of pointers, \<^verbatim>\<open>data[x][y]\<close>.
\<close>

type_synonym Point = "nat \<times> nat"
type_synonym Cell_ptr = "nat \<times> nat"

record 'i Cell =
  connectedCells :: "Cell_ptr set"
  info :: 'i

record 'i Grid =
  data :: "Cell_ptr list list"
  cells :: "Cell_ptr \<Rightarrow> 'i Cell"

text \<open>\<^verbatim>\<open>root->connectedCells.insert(cell)\<close> and \<^verbatim>\<open>root->connectedCells.erase(cell)\<close>.\<close>

definition connectedCells_insert :: "'i Grid \<Rightarrow> Cell_ptr \<Rightarrow> Cell_ptr \<Rightarrow> 'i Grid" where
  "connectedCells_insert g root cell =
     g\<lparr>cells := (cells g)(root := (cells g root)
         \<lparr>connectedCells := insert cell (connectedCells (cells g root))\<rparr>)\<rparr>"

definition connectedCells_erase :: "'i Grid \<Rightarrow> Cell_ptr \<Rightarrow> Cell_ptr \<Rightarrow> 'i Grid" where
  "connectedCells_erase g root cell =
     g\<lparr>cells := (cells g)(root := (cells g root)
         \<lparr>connectedCells := connectedCells (cells g root) - {cell}\<rparr>)\<rparr>"

definition Connect :: "'i Grid \<Rightarrow> Cell_ptr \<Rightarrow> Cell_ptr \<Rightarrow> 'i Grid" where
  "Connect g root cell = connectedCells_insert (connectedCells_insert g root cell) cell root"

text \<open>The overload \<^verbatim>\<open>Connect(cell, neighbours)\<close> taking a vector of cells.\<close>

definition Connect_neighbours :: "'i Grid \<Rightarrow> Cell_ptr \<Rightarrow> Cell_ptr list \<Rightarrow> 'i Grid" where
  "Connect_neighbours g cell neighbours =
     (if length neighbours < 1 then g
      else fold (\<lambda>n g'. connectedCells_insert (connectedCells_insert g' cell n) n cell)
             neighbours g)"

definition Disconnect :: "'i Grid \<Rightarrow> Cell_ptr \<Rightarrow> Cell_ptr \<Rightarrow> 'i Grid" where
  "Disconnect g root cell = connectedCells_erase (connectedCells_erase g root cell) cell root"

text \<open>\<^verbatim>\<open>this->data[x][y]\<close>, the unchecked double index.\<close>

definition cell_at :: "'i Grid \<Rightarrow> nat \<Rightarrow> nat \<Rightarrow> error + Cell_ptr" where
  "cell_at g x y =
     (if x < length (data g) \<and> y < length (data g ! x) then Inr (data g ! x ! y)
      else Inl CellOutOfRange)"

text \<open>
  The parameters \<^verbatim>\<open>idx\<close>, \<^verbatim>\<open>height\<close> (\<^verbatim>\<open>width\<close>) and \<^verbatim>\<open>pathIdx\<close> of
  \<^verbatim>\<open>DisconnectCol\<close> and \<^verbatim>\<open>DisconnectRow\<close> are 8-bit (\<^verbatim>\<open>u_int8_t\<close>); the loop
  counter is an \<^verbatim>\<open>int\<close> and the sums with the \<^verbatim>\<open>uint32_t\<close> origin are taken modulo
  \<open>2 ^ 32\<close>.
\<close>

definition DisconnectCol ::
  "'i Grid \<Rightarrow> Point \<Rightarrow> 8 word \<Rightarrow> 8 word \<Rightarrow> 8 word \<Rightarrow> error + 'i Grid" where
  "DisconnectCol g origin idx height pathIdx =
     for_each [0..<unat height]
       (\<lambda>y g'. if y = unat pathIdx then Inr g'
          else and_then (cell_at g' ((fst origin + unat idx) mod 2 ^ 32)
                                    ((snd origin + y) mod 2 ^ 32))
            (\<lambda>a. and_then (cell_at g' ((fst origin + unat idx + 1) mod 2 ^ 32)
                                       ((snd origin + y) mod 2 ^ 32))
            (\<lambda>b. Inr (Disconnect g' a b))))
       g"

definition DisconnectRow ::
  "'i Grid \<Rightarrow> Point \<Rightarrow> 8 word \<Rightarrow> 8 word \<Rightarrow> 8 word \<Rightarrow> error + 'i Grid" where
  "DisconnectRow g origin idx width pathIdx =
     for_each [0..<unat width]
       (\<lambda>x g'. if x = unat pathIdx then Inr g'
          else and_then (cell_at g' ((fst origin + x) mod 2 ^ 32)
                                    ((snd origin + unat idx) mod 2 ^ 32))
            (\<lambda>a. and_then (cell_at g' ((fst origin + x) mod 2 ^ 32)
                                       ((snd origin + unat idx + 1) mod 2 ^ 32))
            (\<lambda>b. Inr (Disconnect g' a b))))
       g"

text \<open>\<^verbatim>\<open>Width()\<close> and \<^verbatim>\<open>Height()\<close> return \<^verbatim>\<open>uint32_t\<close>.\<close>

definition Width :: "'i Grid \<Rightarrow> 32 word" where
  "Width g = of_nat (length (data g))"

definition Height :: "'i Grid \<Rightarrow> 32 word" where
  "Height g = (if length (data g) > 0 then of_nat (length (data g ! 0)) else 0)"

text \<open>
  \<^verbatim>\<open>Init\<close>: the body of the inner loop pushes \<^verbatim>\<open>new Cell(x, y)\<close> on column \<open>x\<close> and, for a
  connected grid, links it to its west and north neighbours. \<open>i0\<close> is the value of a
  default-constructed \<^verbatim>\<open>CellInfo\<close>.
\<close>

definition Init_cell :: "'i \<Rightarrow> bool \<Rightarrow> nat \<Rightarrow> nat \<Rightarrow> 'i Grid \<Rightarrow> error + 'i Grid" where
  "Init_cell i0 isConneccted x y g =
     (if x < length (data g) then
        (let g1 = g\<lparr>data := (data g)[x := data g ! x @ [(x, y)]],
                    cells := (cells g)((x, y) := \<lparr>connectedCells = {}, info = i0\<rparr>)\<rparr>
         in and_then
              (if isConneccted \<and> x > 0
               then and_then (cell_at g1 x y) (\<lambda>a. and_then (cell_at g1 (x - 1) y)
                      (\<lambda>b. Inr (Connect g1 a b)))
               else Inr g1)
              (\<lambda>g2. if isConneccted \<and> y > 0
                 then and_then (cell_at g2 x y) (\<lambda>a. and_then (cell_at g2 x (y - 1))
                        (\<lambda>b. Inr (Connect g2 a b)))
                 else Inr g2))
      else Inl CellOutOfRange)"

definition Init :: "'i \<Rightarrow> nat \<Rightarrow> nat \<Rightarrow> bool \<Rightarrow> error + 'i Grid" where
  "Init i0 width height isConneccted =
     for_each [0..<width]
       (\<lambda>x. for_each [0..<height] (Init_cell i0 isConneccted x))
       \<lparr>data = replicate width [], cells = (\<lambda>p. \<lparr>connectedCells = {}, info = i0\<rparr>)\<rparr>"

text \<open>The constructor \<^verbatim>\<open>Grid(width, height, isConnected)\<close>.\<close>

definition Grid :: "'i \<Rightarrow> 32 word \<Rightarrow> 32 word \<Rightarrow> bool \<Rightarrow> error + 'i Grid" where
  "Grid i0 width height isConnected = Init i0 (unat width) (unat height) isConnected"

section \<open>The random generator and the ordered sets of the generators\<close>

text \<open>
  \<^verbatim>\<open>std::mt19937\<close> is library code. A generator object seeded with \<^verbatim>\<open>seed\<close> is
  represented by the sequence of the 32-bit values it will still return: \<^verbatim>\<open>mt()\<close> returns
  \<open>mt 0\<close> and leaves \<open>mt_next mt\<close>. Every generator below takes this sequence
  where the C++ code takes the seed; the same seed gives the same sequence.
\<close>

type_synonym mt19937 = "nat \<Rightarrow> 32 word"

definition mt_next :: "mt19937 \<Rightarrow> mt19937" where
  "mt_next mt = (\<lambda>i. mt (Suc i))"

text \<open>
  \<^verbatim>\<open>std::set<std::shared_ptr<Cell>>\<close> orders its elements by the address of the cell
  objects. The addresses are chosen by the allocator and are not part of the arguments of a
  generator, so they are a parameter \<open>addr\<close> of the model. The set is the list of its
  elements in increasing address; \<^verbatim>\<open>std::advance(begin(), k)\<close> is the element at index
  \<open>k\<close>.
\<close>

fun ptr_set_insert :: "(Cell_ptr \<Rightarrow> nat) \<Rightarrow> Cell_ptr \<Rightarrow> Cell_ptr list \<Rightarrow> Cell_ptr list" where
  "ptr_set_insert addr c [] = [c]"
| "ptr_set_insert addr c (d # ds) =
     (if addr c < addr d then c # d # ds
      else if addr d < addr c then d # ptr_set_insert addr c ds
      else d # ds)"

text \<open>
  \<^verbatim>\<open>Edge::operator<\<close> compares the coordinates of the first cell only. An edge is the
  pair of its two cells. \<^verbatim>\<open>std::set<Edge>\<close> is the list of its elements in the order of
  the comparison: an insertion walks past the elements that compare less than the new edge
  and drops the new edge when the element found there is equivalent to it.
\<close>

type_synonym Edge = "Cell_ptr \<times> Cell_ptr"

definition Edge_less :: "Edge \<Rightarrow> Edge \<Rightarrow> bool" where
  "Edge_less e a = (fst (fst e) < fst (fst a) \<or> snd (fst e) < snd (fst a))"

fun edge_set_insert :: "Edge \<Rightarrow> Edge list \<Rightarrow> Edge list" where
  "edge_set_insert e [] = [e]"
| "edge_set_insert e (a # as) =
     (if Edge_less a e then a # edge_set_insert e as
      else if Edge_less e a then e # a # as
      else a # as)"

text \<open>\<^verbatim>\<open>cell->info.field = v\<close>, written through the pointer.\<close>

definition write_info :: "'i Grid \<Rightarrow> Cell_ptr \<Rightarrow> ('i \<Rightarrow> 'i) \<Rightarrow> 'i Grid" where
  "write_info g c f = g\<lparr>cells := (cells g)(c := (cells g c)\<lparr>info := f (info (cells g c))\<rparr>)\<rparr>"

record CellInfoBase =
  isVisited :: bool

section \<open>Binary tree generator (binary_tree_generator.hxx)\<close>

definition BinaryTree_GetNeighbours :: "'i Grid \<Rightarrow> Cell_ptr \<Rightarrow> error + Cell_ptr list" where
  "BinaryTree_GetNeighbours maze cell =
     (let x = fst cell; y = snd cell in
      and_then (if x > 0 then and_then (cell_at maze (x - 1) y) (\<lambda>c. Inr [c]) else Inr [])
        (\<lambda>neighbours.
           if y > 0 then and_then (cell_at maze x (y - 1)) (\<lambda>c. Inr (neighbours @ [c]))
           else Inr neighbours))"

text \<open>The body of the inner loop, for the cell in column \<open>x\<close> of row \<open>y\<close>.\<close>

definition BinaryTree_cell ::
  "nat \<Rightarrow> nat \<Rightarrow> 'i Grid \<times> mt19937 \<Rightarrow> error + 'i Grid \<times> mt19937" where
  "BinaryTree_cell y x s =
     (case s of (maze, mt) \<Rightarrow>
        and_then (cell_at maze x y) (\<lambda>cell.
        and_then (BinaryTree_GetNeighbours maze cell) (\<lambda>curNeighbours.
          if curNeighbours = [] then Inr (maze, mt)
          else let randIdx = unat (mt 0) mod length curNeighbours
               in Inr (Connect maze cell (curNeighbours ! randIdx), mt_next mt))))"

text \<open>\<^verbatim>\<open>operator()\<close>; \<open>Inr None\<close> is the null pointer.\<close>

definition BinaryTreeGenerator ::
  "32 word \<Rightarrow> 32 word \<Rightarrow> mt19937 \<Rightarrow> error + CellInfoBase Grid option" where
  "BinaryTreeGenerator width height mt =
     (if width < 1 \<or> height < 1 then Inr None
      else and_then (Grid \<lparr>isVisited = False\<rparr> width height False) (\<lambda>maze.
           and_then (for_each [0..<unat height]
                       (\<lambda>y. for_each [0..<unat width] (BinaryTree_cell y)) (maze, mt))
             (\<lambda>s. Inr (Some (fst s)))))"

section \<open>Sidewinder generator (sidewinder_generator.hxx)\<close>

text \<open>
  The body of the inner loop. The state is the maze, the random generator and the run set.
  \<^verbatim>\<open>mt()\<close> is called in the condition exactly when \<^verbatim>\<open>x + 1 < width\<close>, before
  \<^verbatim>\<open>y == 0\<close> is looked at. \<^verbatim>\<open>(*cellIt)->y - 1\<close> is a \<^verbatim>\<open>uint32_t\<close> subtraction.
\<close>

definition Sidewinder_cell ::
  "(Cell_ptr \<Rightarrow> nat) \<Rightarrow> nat \<Rightarrow> nat \<Rightarrow> nat \<Rightarrow> 'i Grid \<times> mt19937 \<times> Cell_ptr list
     \<Rightarrow> error + 'i Grid \<times> mt19937 \<times> Cell_ptr list" where
  "Sidewinder_cell addr width y x s =
     (case s of (maze, mt, runSet) \<Rightarrow>
        and_then (if y > 0 then and_then (cell_at maze x y)
                                  (\<lambda>c. Inr (ptr_set_insert addr c runSet))
                  else Inr runSet) (\<lambda>runSet1.
          if x + 1 < width \<and> (unat (mt 0) mod 2 = 0 \<or> y = 0)
          then and_then (cell_at maze x y) (\<lambda>a.
               and_then (cell_at maze (x + 1) y) (\<lambda>b.
                 Inr (Connect maze a b, mt_next mt, runSet1)))
          else let mt1 = (if x + 1 < width then mt_next mt else mt) in
               if y > 0 then
                 (if length runSet1 = 0 then Inl DivisionByZero
                  else let cellIt = runSet1 ! (unat (mt1 0) mod length runSet1) in
                       and_then (cell_at maze (fst cellIt) ((snd cellIt + 2 ^ 32 - 1) mod 2 ^ 32))
                         (\<lambda>n. Inr (Connect maze cellIt n, mt_next mt1, [])))
               else Inr (maze, mt1, runSet1)))"

definition SidewinderGenerator ::
  "(Cell_ptr \<Rightarrow> nat) \<Rightarrow> 32 word \<Rightarrow> 32 word \<Rightarrow> mt19937 \<Rightarrow> error + CellInfoBase Grid option" where
  "SidewinderGenerator addr width height mt =
     (if width < 1 \<or> height < 1 then Inr None
      else and_then (Grid \<lparr>isVisited = False\<rparr> width height False) (\<lambda>maze.
           and_then (for_each [0..<unat height]
                       (\<lambda>y s. and_then (for_each [0..<unat width]
                                           (Sidewinder_cell addr (unat width) y) s)
                                 (\<lambda>s'. Inr (fst s', fst (snd s'), [])))
                       (maze, mt, []))
             (\<lambda>s. Inr (Some (fst s)))))"

section \<open>Prim's generator (prims_generator.hxx)\<close>

text \<open>The uninitialised \<^verbatim>\<open>rootDistance\<close> of a new cell is taken as 0; it is written before it is read.\<close>

record CellInfo = CellInfoBase +
  rootDistance :: nat

text \<open>
  \<^verbatim>\<open>x - 1\<close> and \<^verbatim>\<open>x + 1\<close> are \<^verbatim>\<open>uint32_t\<close> operations, and
  \<^verbatim>\<open>static_cast<int>(x - 1) >= 0\<close> holds when the wrapped difference is below \<open>2 ^ 31\<close>.
  Each of the four tests reads the neighbour (the index is not checked) when its first
  conjunct \<open>available\<close> holds, and pushes it when its visited flag is the wanted one.
\<close>

definition Prims_push ::
  "CellInfo Grid \<Rightarrow> bool \<Rightarrow> bool \<Rightarrow> nat \<Rightarrow> nat \<Rightarrow> Cell_ptr list \<Rightarrow> error + Cell_ptr list" where
  "Prims_push maze visited available i j neighbour =
     (if available
      then and_then (cell_at maze i j) (\<lambda>c.
             Inr (if (if visited then isVisited (info (cells maze c))
                      else \<not> isVisited (info (cells maze c)))
                  then neighbour @ [c] else neighbour))
      else Inr neighbour)"

definition Prims_GetNeighbours :: "CellInfo Grid \<Rightarrow> Cell_ptr \<Rightarrow> bool \<Rightarrow> error + Cell_ptr list" where
  "Prims_GetNeighbours maze cell visited =
     (let x = fst cell; y = snd cell in
      and_then (Prims_push maze visited ((x + 2 ^ 32 - 1) mod 2 ^ 32 < 2 ^ 31)
                  ((x + 2 ^ 32 - 1) mod 2 ^ 32) y []) (\<lambda>n1.
      and_then (Prims_push maze visited ((y + 2 ^ 32 - 1) mod 2 ^ 32 < 2 ^ 31)
                  x ((y + 2 ^ 32 - 1) mod 2 ^ 32) n1) (\<lambda>n2.
      and_then (Prims_push maze visited ((x + 1) mod 2 ^ 32 < unat (Width maze))
                  ((x + 1) mod 2 ^ 32) y n2) (\<lambda>n3.
      Prims_push maze visited ((y + 1) mod 2 ^ 32 < unat (Height maze))
        x ((y + 1) mod 2 ^ 32) n3))))"

text \<open>One round of the \<^verbatim>\<open>while\<close> loop, for a non-empty path set.\<close>

definition Prims_step ::
  "(Cell_ptr \<Rightarrow> nat) \<Rightarrow> CellInfo Grid \<times> mt19937 \<times> Cell_ptr list
     \<Rightarrow> error + CellInfo Grid \<times> mt19937 \<times> Cell_ptr list" where
  "Prims_step addr s =
     (case s of (maze, mt, pathSet) \<Rightarrow>
        let cellIt = pathSet ! (unat (mt 0) mod length pathSet);
            mt1 = mt_next mt;
            maze1 = write_info maze cellIt (\<lambda>i. i\<lparr>isVisited := True\<rparr>)
        in and_then (Prims_GetNeighbours maze1 cellIt True) (\<lambda>neighbours.
           let s2 = (if neighbours \<noteq> []
                     then let randIdx = unat (mt1 0) mod length neighbours;
                              d = (rootDistance (info (cells maze1 (neighbours ! randIdx))) + 1)
                                    mod 2 ^ 64;
                              maze2 = write_info maze1 cellIt (\<lambda>i. i\<lparr>rootDistance := d\<rparr>)
                          in (Connect maze2 cellIt (neighbours ! randIdx), mt_next mt1)
                     else (maze1, mt1))
           in and_then (Prims_GetNeighbours (fst s2) cellIt False) (\<lambda>neighbours2.
                Inr (fst s2, snd s2,
                     remove1 cellIt (fold (ptr_set_insert addr) neighbours2 pathSet)))))"

text \<open>
  The \<^verbatim>\<open>while\<close> loop runs as long as the path set is not empty. It ends on every state:
  a round either marks a cell of the grid that was not visited, or takes a cell out of the
  path set that was visited (or is no cell of the grid) and puts only unvisited cells of
  the grid in.
\<close>

definition stored :: "'i Grid \<Rightarrow> Cell_ptr set" where
  "stored g = \<Union> (set ` set (data g))"

definition unvisited :: "CellInfo Grid \<Rightarrow> Cell_ptr set" where
  "unvisited maze = {p \<in> stored maze. \<not> isVisited (info (cells maze p))}"

definition stale :: "CellInfo Grid \<Rightarrow> Cell_ptr \<Rightarrow> bool" where
  "stale maze p = (isVisited (info (cells maze p)) \<or> p \<notin> stored maze)"

definition wanted :: "CellInfo Grid \<Rightarrow> bool \<Rightarrow> Cell_ptr list \<Rightarrow> bool" where
  "wanted maze visited ns =
     (\<forall>n \<in> set ns. n \<in> stored maze \<and> isVisited (info (cells maze n)) = visited)"

lemma finite_stored [simp]: "finite (stored g)"
  by (simp add: stored_def)

lemma cell_at_stored: "cell_at g x y = Inr c \<Longrightarrow> c \<in> stored g"
proof -
  assume "cell_at g x y = Inr c"
  then have "x < length (data g)" "y < length (data g ! x)" "c = data g ! x ! y"
    by (auto simp: cell_at_def split: if_splits)
  then have "data g ! x \<in> set (data g)" "c \<in> set (data g ! x)" by simp_all
  then show ?thesis unfolding stored_def by blast
qed

lemma data_write_info [simp]: "data (write_info g c f) = data g"
  by (simp add: write_info_def)

lemma data_Connect [simp]: "data (Connect g a b) = data g"
  by (simp add: Connect_def connectedCells_insert_def)

lemma data_Disconnect [simp]: "data (Disconnect g a b) = data g"
  by (simp add: Disconnect_def connectedCells_erase_def)

lemma stored_write_info [simp]: "stored (write_info g c f) = stored g"
  by (simp add: stored_def)

lemma stored_Connect [simp]: "stored (Connect g a b) = stored g"
  by (simp add: stored_def)

lemma info_Connect [simp]: "info (cells (Connect g a b) p) = info (cells g p)"
  by (auto simp: Connect_def connectedCells_insert_def)

lemma info_write_info:
  "info (cells (write_info g c f) p) = (if p = c then f (info (cells g c)) else info (cells g p))"
  by (simp add: write_info_def)

lemma Prims_push_wanted:
  assumes "Prims_push maze visited a i j ns = Inr ns'" "wanted maze visited ns"
  shows "wanted maze visited ns'"
  using assms unfolding Prims_push_def wanted_def
  by (auto simp: and_then_eq_Inr split: if_splits dest: cell_at_stored)

lemma Prims_GetNeighbours_wanted:
  assumes "Prims_GetNeighbours maze cell visited = Inr ns"
  shows "wanted maze visited ns"
proof -
  have w0: "wanted maze visited []" by (simp add: wanted_def)
  from assms obtain n1 n2 n3 where
    p1: "Prims_push maze visited ((fst cell + 2 ^ 32 - 1) mod 2 ^ 32 < 2 ^ 31)
                  ((fst cell + 2 ^ 32 - 1) mod 2 ^ 32) (snd cell) [] = Inr n1" and
    p2: "Prims_push maze visited ((snd cell + 2 ^ 32 - 1) mod 2 ^ 32 < 2 ^ 31)
                  (fst cell) ((snd cell + 2 ^ 32 - 1) mod 2 ^ 32) n1 = Inr n2" and
    p3: "Prims_push maze visited ((fst cell + 1) mod 2 ^ 32 < unat (Width maze))
                  ((fst cell + 1) mod 2 ^ 32) (snd cell) n2 = Inr n3" and
    p4: "Prims_push maze visited ((snd cell + 1) mod 2 ^ 32 < unat (Height maze))
        (fst cell) ((snd cell + 1) mod 2 ^ 32) n3 = Inr ns"
    unfolding Prims_GetNeighbours_def Let_def and_then_eq_Inr by blast
  show ?thesis
    by (rule Prims_push_wanted [OF p4 Prims_push_wanted [OF p3 Prims_push_wanted [OF p2
          Prims_push_wanted [OF p1 w0]]]])
qed

lemma set_ptr_set_insert:
  "set (ptr_set_insert addr c s) \<subseteq> insert c (set s) \<and> set s \<subseteq> set (ptr_set_insert addr c s)"
  by (induction s) auto

lemma filter_ptr_set_insert: "\<not> P c \<Longrightarrow> filter P (ptr_set_insert addr c s) = filter P s"
  by (induction s) auto

lemma filter_fold_ptr_set_insert:
  "\<forall>n \<in> set ns. \<not> P n \<Longrightarrow> filter P (fold (ptr_set_insert addr) ns s) = filter P s"
  by (induction ns arbitrary: s) (auto simp: filter_ptr_set_insert)

lemma set_fold_ptr_set_insert: "set s \<subseteq> set (fold (ptr_set_insert addr) ns s)"
proof (induction ns arbitrary: s)
  case Nil
  then show ?case by simp
next
  case (Cons n ns)
  have "set s \<subseteq> set (ptr_set_insert addr n s)" using set_ptr_set_insert by blast
  then show ?case using Cons [of "ptr_set_insert addr n s"] by auto
qed

lemma length_filter_remove1:
  "x \<in> set xs \<Longrightarrow> P x \<Longrightarrow> length (filter P (remove1 x xs)) < length (filter P xs)"
  by (induction xs) auto

lemma Prims_step_props:
  assumes "Prims_step addr (maze, mt, pathSet) = Inr (maze', mt', pathSet')"
  defines "c \<equiv> pathSet ! (unat (mt 0) mod length pathSet)"
  shows "data maze' = data maze"
    and "isVisited (info (cells maze' p)) = (isVisited (info (cells maze p)) \<or> p = c)"
    and "\<exists>ns. pathSet' = remove1 c (fold (ptr_set_insert addr) ns pathSet) \<and>
           Prims_GetNeighbours maze' c False = Inr ns"
proof -
  define maze1 where "maze1 = write_info maze c (\<lambda>i. i\<lparr>isVisited := True\<rparr>)"
  from assms(1) obtain neighbours ns where
    n1: "Prims_GetNeighbours maze1 c True = Inr neighbours" and
    m': "maze' = (if neighbours \<noteq> []
                  then Connect (write_info maze1 c (\<lambda>i. i\<lparr>rootDistance :=
                         (rootDistance (info (cells maze1
                            (neighbours ! (unat (mt_next mt 0) mod length neighbours)))) + 1)
                          mod 2 ^ 64\<rparr>))
                         c (neighbours ! (unat (mt_next mt 0) mod length neighbours))
                  else maze1)" and
    n2: "Prims_GetNeighbours maze' c False = Inr ns" and
    p': "pathSet' = remove1 c (fold (ptr_set_insert addr) ns pathSet)"
    unfolding Prims_step_def Let_def c_def maze1_def
    by (auto simp: and_then_eq_Inr split: if_splits)
  show "data maze' = data maze" by (simp add: m' maze1_def)
  show "isVisited (info (cells maze' p)) = (isVisited (info (cells maze p)) \<or> p = c)"
    by (simp add: m' maze1_def info_write_info)
  show "\<exists>ns. pathSet' = remove1 c (fold (ptr_set_insert addr) ns pathSet) \<and>
           Prims_GetNeighbours maze' c False = Inr ns"
    using p' n2 by blast
qed

lemma Prims_step_decreases:
  assumes "Prims_step addr s = Inr s'" "snd (snd s) \<noteq> []"
  shows "(s', s) \<in> measures [\<lambda>s. card (unvisited (fst s)),
                               \<lambda>s. length (filter (stale (fst s)) (snd (snd s)))]"
proof -
  obtain maze mt pathSet where s: "s = (maze, mt, pathSet)" by (cases s) auto
  obtain maze' mt' pathSet' where s': "s' = (maze', mt', pathSet')" by (cases s') auto
  define c where "c = pathSet ! (unat (mt 0) mod length pathSet)"
  note props = Prims_step_props [OF assms(1) [unfolded s s'], folded c_def]
  from props(3) obtain ns where
    p': "pathSet' = remove1 c (fold (ptr_set_insert addr) ns pathSet)" and
    n2: "Prims_GetNeighbours maze' c False = Inr ns"
    by blast
  have st: "stored maze' = stored maze" using props(1) by (simp add: stored_def)
  have ns: "\<forall>n \<in> set ns. n \<in> stored maze \<and> \<not> isVisited (info (cells maze' n))"
    using Prims_GetNeighbours_wanted [OF n2] by (simp add: wanted_def st)
  have cin: "c \<in> set pathSet" using assms(2) by (simp add: c_def s)
  show ?thesis
  proof (cases "c \<in> unvisited maze")
    case True
    have "unvisited maze' = unvisited maze - {c}"
      by (auto simp: unvisited_def st props(2))
    moreover have "finite (unvisited maze)" by (simp add: unvisited_def)
    ultimately have "card (unvisited maze') < card (unvisited maze)"
      using True card_Diff1_less [of "unvisited maze" c] by simp
    then show ?thesis by (simp add: s s')
  next
    case False
    then have sc: "stale maze c" by (auto simp: unvisited_def stale_def)
    have eq: "unvisited maze' = unvisited maze"
      using False by (auto simp: unvisited_def st props(2))
    have stale_eq: "stale maze' p = stale maze p" for p
      using sc by (auto simp: stale_def st props(2))
    have "\<forall>n \<in> set ns. \<not> stale maze n"
      using ns by (auto simp: stale_def props(2))
    then have "filter (stale maze) (fold (ptr_set_insert addr) ns pathSet)
                 = filter (stale maze) pathSet"
      by (rule filter_fold_ptr_set_insert)
    moreover have "c \<in> set (fold (ptr_set_insert addr) ns pathSet)"
      using cin set_fold_ptr_set_insert by blast
    ultimately have "length (filter (stale maze) pathSet') < length (filter (stale maze) pathSet)"
      unfolding p' using length_filter_remove1 [of c _ "stale maze"] sc by metis
    moreover have "filter (stale maze') pathSet' = filter (stale maze) pathSet'"
      using stale_eq by (simp cong: filter_cong)
    ultimately show ?thesis by (simp add: s s' eq)
  qed
qed

function Prims_loop ::
  "(Cell_ptr \<Rightarrow> nat) \<Rightarrow> CellInfo Grid \<times> mt19937 \<times> Cell_ptr list \<Rightarrow> error + CellInfo Grid" where
  "Prims_loop addr s =
     (if snd (snd s) = [] then Inr (fst s)
      else case Prims_step addr s of Inl e \<Rightarrow> Inl e | Inr s' \<Rightarrow> Prims_loop addr s')"
  by pat_completeness auto
termination
proof (relation "inv_image (measures [\<lambda>s. card (unvisited (fst s)),
                  \<lambda>s. length (filter (stale (fst s)) (snd (snd s)))]) snd")
  show "wf (inv_image (measures [\<lambda>s. card (unvisited (fst s)),
              \<lambda>s :: CellInfo Grid \<times> mt19937 \<times> Cell_ptr list.
                 length (filter (stale (fst s)) (snd (snd s)))]) snd)"
    by simp
next
  fix addr :: "Cell_ptr \<Rightarrow> nat" and s :: "CellInfo Grid \<times> mt19937 \<times> Cell_ptr list" and s'
  assume "snd (snd s) \<noteq> []" "Prims_step addr s = Inr s'"
  then show "((addr, s'), (addr, s)) \<in> inv_image (measures [\<lambda>s. card (unvisited (fst s)),
               \<lambda>s. length (filter (stale (fst s)) (snd (snd s)))]) snd"
    using Prims_step_decreases [of addr s s'] by simp
qed

text \<open>\<^verbatim>\<open>operator()\<close>. The start point is a \<^verbatim>\<open>Point\<close> of two \<^verbatim>\<open>uint32_t\<close>.\<close>

definition PrimsGenerator ::
  "(Cell_ptr \<Rightarrow> nat) \<Rightarrow> 32 word \<Rightarrow> 32 word \<Rightarrow> 32 word \<times> 32 word \<Rightarrow> mt19937
     \<Rightarrow> error + CellInfo Grid option" where
  "PrimsGenerator addr width height startPoint mt =
     (if width < 1 \<or> height < 1 \<or> fst startPoint \<ge> width \<or> snd startPoint \<ge> height
      then Inr None
      else and_then (Grid \<lparr>isVisited = False, rootDistance = 0\<rparr> width height False) (\<lambda>maze.
           and_then (cell_at maze (unat (fst startPoint)) (unat (snd startPoint))) (\<lambda>c.
           let maze1 = write_info maze c (\<lambda>i. i\<lparr>rootDistance := 0\<rparr>) in
           and_then (cell_at maze1 (unat (fst startPoint)) (unat (snd startPoint))) (\<lambda>c'.
           and_then (Prims_loop addr (maze1, mt, ptr_set_insert addr c' []))
             (\<lambda>m. Inr (Some m))))))"

section \<open>Kruskal's generator (kruskals_generator.hxx)\<close>

text \<open>The uninitialised \<^verbatim>\<open>bucketId\<close> of a new cell is taken as 0; the fill loop writes it.\<close>

record CellInfoBucket = CellInfoBase +
  bucketId :: nat

text \<open>
  \<^verbatim>\<open>MergeBucket\<close> works on the bucket vector and, through the pointers in it, on the
  cells. Its two ids are \<^verbatim>\<open>uint32_t\<close> parameters.
\<close>

definition MergeBucket ::
  "CellInfoBucket Grid \<times> Cell_ptr list list \<Rightarrow> nat \<Rightarrow> nat
     \<Rightarrow> error + CellInfoBucket Grid \<times> Cell_ptr list list" where
  "MergeBucket s fromId ToId =
     (if fromId = ToId then Inr s
      else if fromId < length (snd s)
      then and_then
             (for_each (snd s ! fromId)
                (\<lambda>it t. if ToId < length (snd t)
                   then Inr (write_info (fst t) it (\<lambda>i. i\<lparr>bucketId := ToId\<rparr>),
                             (snd t)[ToId := snd t ! ToId @ [it]])
                   else Inl BucketOutOfRange)
                s)
             (\<lambda>t. Inr (fst t, (snd t)[fromId := []]))
      else Inl BucketOutOfRange)"

text \<open>
  The body of the fill loop. The state is the maze, the edge set, the buckets and
  \<^verbatim>\<open>nodeId\<close> (a \<^verbatim>\<open>uint64_t\<close>).
\<close>

definition Kruskals_fill_cell ::
  "nat \<Rightarrow> nat \<Rightarrow> CellInfoBucket Grid \<times> Edge list \<times> Cell_ptr list list \<times> nat
     \<Rightarrow> error + CellInfoBucket Grid \<times> Edge list \<times> Cell_ptr list list \<times> nat" where
  "Kruskals_fill_cell x y s =
     (case s of (maze, edges, bucketCells, nodeId) \<Rightarrow>
        and_then (cell_at maze x y) (\<lambda>c.
          let maze1 = write_info maze c (\<lambda>i. i\<lparr>bucketId := nodeId\<rparr>) in
          if nodeId < length bucketCells then
            let bucketCells1 = bucketCells[nodeId := bucketCells ! nodeId @ [c]] in
            and_then (if (x + 1) mod 2 ^ 32 < unat (Width maze1)
                      then and_then (cell_at maze1 ((x + 1) mod 2 ^ 32) y)
                             (\<lambda>r. Inr (edge_set_insert (c, r) edges))
                      else Inr edges) (\<lambda>edges1.
            and_then (if (y + 1) mod 2 ^ 32 < unat (Height maze1)
                      then and_then (cell_at maze1 x ((y + 1) mod 2 ^ 32))
                             (\<lambda>b. Inr (edge_set_insert (c, b) edges1))
                      else Inr edges1) (\<lambda>edges2.
              Inr (maze1, edges2, bucketCells1, (nodeId + 1) mod 2 ^ 64)))
          else Inl BucketOutOfRange))"

text \<open>One round of the \<^verbatim>\<open>while\<close> loop, for a non-empty edge set.\<close>

definition Kruskals_step ::
  "CellInfoBucket Grid \<times> mt19937 \<times> Edge list \<times> Cell_ptr list list
     \<Rightarrow> error + CellInfoBucket Grid \<times> mt19937 \<times> Edge list \<times> Cell_ptr list list" where
  "Kruskals_step s =
     (case s of (maze, mt, edges, bucketCells) \<Rightarrow>
        let k = unat (mt 0) mod length edges;
            edgeIt = edges ! k;
            firstBucket = bucketId (info (cells maze (fst edgeIt)));
            secondBucket = bucketId (info (cells maze (snd edgeIt)))
        in and_then (if firstBucket \<noteq> secondBucket
                     then MergeBucket (Connect maze (fst edgeIt) (snd edgeIt), bucketCells)
                            (firstBucket mod 2 ^ 32) (secondBucket mod 2 ^ 32)
                     else Inr (maze, bucketCells))
             (\<lambda>t. Inr (fst t, mt_next mt, take k edges @ drop (Suc k) edges, snd t)))"

lemma Kruskals_step_length:
  assumes "Kruskals_step (maze, mt, edges, b) = Inr s'" "edges \<noteq> []"
  shows "length (fst (snd (snd s'))) < length edges"
proof -
  define k where "k = unat (mt 0) mod length edges"
  have "k < length edges" using assms(2) by (simp add: k_def)
  then have "length (take k edges @ drop (Suc k) edges) < length edges" by simp
  then show ?thesis using assms(1)
    unfolding Kruskals_step_def Let_def k_def
    by (auto simp: and_then_eq_Inr simp del: length_append length_take length_drop)
qed

text \<open>The \<^verbatim>\<open>while\<close> loop: every round erases one edge.\<close>

function Kruskals_loop ::
  "CellInfoBucket Grid \<times> mt19937 \<times> Edge list \<times> Cell_ptr list list
     \<Rightarrow> error + CellInfoBucket Grid" where
  "Kruskals_loop s =
     (if fst (snd (snd s)) = [] then Inr (fst s)
      else case Kruskals_step s of Inl e \<Rightarrow> Inl e | Inr s' \<Rightarrow> Kruskals_loop s')"
  by pat_completeness auto
termination
proof (relation "measure (\<lambda>s. length (fst (snd (snd s))))")
  show "wf (measure (\<lambda>s. length (fst (snd (snd s)))))" by simp
next
  fix s :: "CellInfoBucket Grid \<times> mt19937 \<times> Edge list \<times> Cell_ptr list list" and s'
  assume "fst (snd (snd s)) \<noteq> []" "Kruskals_step s = Inr s'"
  then show "(s', s) \<in> measure (\<lambda>s. length (fst (snd (snd s))))"
    using Kruskals_step_length [of "fst s" "fst (snd s)" "fst (snd (snd s))" "snd (snd (snd s))" s']
    by simp
qed

text \<open>
  \<^verbatim>\<open>operator()\<close>. \<^verbatim>\<open>height * width\<close> is a product of two \<^verbatim>\<open>uint32_t\<close>, so the
  bucket vector gets the product modulo \<open>2 ^ 32\<close> as its size.
\<close>

definition KruskalsGenerator ::
  "32 word \<Rightarrow> 32 word \<Rightarrow> mt19937 \<Rightarrow> error + CellInfoBucket Grid option" where
  "KruskalsGenerator width height mt =
     (if width < 1 \<or> height < 1 then Inr None
      else and_then (Grid \<lparr>isVisited = False, bucketId = 0\<rparr> width height False) (\<lambda>maze.
           and_then (for_each [0..<unat (Width maze)]
                       (\<lambda>x. for_each [0..<unat (Height maze)] (Kruskals_fill_cell x))
                       (maze, [], replicate (unat (height * width)) [], 0)) (\<lambda>s.
           and_then (Kruskals_loop (fst s, mt, fst (snd s), fst (snd (snd s))))
             (\<lambda>m. Inr (Some m)))))"

section \<open>Recursive division generator (recursive_division_generator.hxx)\<close>

lemma wall_less: "\<not> h < 2 \<Longrightarrow> Suc (r mod (h - Suc 0)) mod 4294967296 < h"
proof -
  assume "\<not> h < 2"
  then have "r mod (h - Suc 0) < h - Suc 0" by simp
  moreover have "Suc (r mod (h - Suc 0)) mod 4294967296 \<le> Suc (r mod (h - Suc 0))"
    by (rule mod_less_eq_dividend)
  ultimately show ?thesis by linarith
qed

text \<open>
  \<^verbatim>\<open>Compute\<close> takes the random generator by reference; the model returns it with the maze.
  The three \<^verbatim>\<open>uint32_t\<close> values \<^verbatim>\<open>wallIdx\<close>, \<^verbatim>\<open>width\<close> (\<^verbatim>\<open>height\<close>) and
  \<^verbatim>\<open>pathIdx\<close> are converted to the 8-bit parameters of \<^verbatim>\<open>DisconnectRow\<close> and
  \<^verbatim>\<open>DisconnectCol\<close> at the call.
\<close>

function Compute ::
  "mt19937 \<Rightarrow> 'i Grid \<Rightarrow> Point \<Rightarrow> nat \<Rightarrow> nat \<Rightarrow> error + 'i Grid \<times> mt19937" where
  "Compute mt maze origin width height =
     (if width < 2 \<or> height < 2 then Inr (maze, mt)
      else
        let isHorizontalCut = (unat (mt 0) mod 2 = 0);
            mt1 = mt_next mt;
            wallIdx = (if isHorizontalCut then unat (mt1 0) mod (height - 1)
                       else unat (mt1 0) mod (width - 1));
            mt2 = mt_next mt1;
            pathIdx = (if isHorizontalCut then unat (mt2 0) mod width
                       else unat (mt2 0) mod height);
            mt3 = mt_next mt2
        in if isHorizontalCut
           then (case DisconnectRow maze origin (of_nat wallIdx) (of_nat width) (of_nat pathIdx) of
                   Inl e \<Rightarrow> Inl e
                 | Inr maze1 \<Rightarrow>
                    (case Compute mt3 maze1 origin width ((wallIdx + 1) mod 2 ^ 32) of
                       Inl e \<Rightarrow> Inl e
                     | Inr t \<Rightarrow>
                        Compute (snd t) (fst t)
                          (fst origin, (snd origin + wallIdx + 1) mod 2 ^ 32)
                          width (height - wallIdx - 1)))
           else (case DisconnectCol maze origin (of_nat wallIdx) (of_nat height) (of_nat pathIdx) of
                   Inl e \<Rightarrow> Inl e
                 | Inr maze1 \<Rightarrow>
                    (case Compute mt3 maze1 origin ((wallIdx + 1) mod 2 ^ 32) height of
                       Inl e \<Rightarrow> Inl e
                     | Inr t \<Rightarrow>
                        Compute (snd t) (fst t)
                          ((fst origin + wallIdx + 1) mod 2 ^ 32, snd origin)
                          (width - wallIdx - 1) height)))"
  by pat_completeness auto
termination
  by (relation "measure (\<lambda>(mt, maze, origin, width, height). width + height)")
     (auto simp: wall_less)

definition RecursiveDivisionGenerator ::
  "32 word \<Rightarrow> 32 word \<Rightarrow> mt19937 \<Rightarrow> error + CellInfoBase Grid option" where
  "RecursiveDivisionGenerator width height mt =
     (if width < 1 \<or> height < 1 then Inr None
      else and_then (Grid \<lparr>isVisited = False\<rparr> width height True) (\<lambda>maze.
           and_then (Compute mt maze (0, 0) (unat width) (unat height))
             (\<lambda>t. Inr (Some (fst t)))))"

section \<open>Properties of the grid\<close>

text \<open>
  The connection relation of a grid is symmetric when each cell is in the connection set of
  every cell of its own set. Two cells are adjacent when they are one step apart along one
  axis. \<open>grid_data w h\<close> is the vector of columns of a grid of \<open>w\<close> columns and \<open>h\<close> rows,
  and \<open>full_grid i0 c w h\<close> the grid that \<^verbatim>\<open>Init\<close> builds: with \<open>c\<close> every cell is
  connected to its neighbours in the grid, without \<open>c\<close> to none.
\<close>

definition symmetric :: "'i Grid \<Rightarrow> bool" where
  "symmetric g = (\<forall>a b. a \<in> connectedCells (cells g b) \<longleftrightarrow> b \<in> connectedCells (cells g a))"

definition adjacent :: "Cell_ptr \<Rightarrow> Cell_ptr \<Rightarrow> bool" where
  "adjacent a b = (\<bar>int (fst a) - int (fst b)\<bar> + \<bar>int (snd a) - int (snd b)\<bar> = 1)"

definition in_grid :: "nat \<Rightarrow> nat \<Rightarrow> Cell_ptr \<Rightarrow> bool" where
  "in_grid w h p = (fst p < w \<and> snd p < h)"

definition grid_data :: "nat \<Rightarrow> nat \<Rightarrow> Cell_ptr list list" where
  "grid_data w h = map (\<lambda>x. map (\<lambda>y. (x, y)) [0..<h]) [0..<w]"

definition full_grid :: "'i \<Rightarrow> bool \<Rightarrow> nat \<Rightarrow> nat \<Rightarrow> 'i Grid" where
  "full_grid i0 c w h =
     \<lparr>data = grid_data w h,
      cells = (\<lambda>p. \<lparr>connectedCells =
                 (if c then {q. adjacent p q \<and> in_grid w h p \<and> in_grid w h q} else {}),
               info = i0\<rparr>)\<rparr>"

definition built :: "nat \<Rightarrow> nat \<Rightarrow> nat \<Rightarrow> Cell_ptr \<Rightarrow> bool" where
  "built h x k p = (fst p < x \<and> snd p < h \<or> fst p = x \<and> snd p < k)"

definition partial_grid :: "'i \<Rightarrow> bool \<Rightarrow> nat \<Rightarrow> nat \<Rightarrow> nat \<Rightarrow> nat \<Rightarrow> 'i Grid" where
  "partial_grid i0 c w h x k =
     \<lparr>data = map (\<lambda>x'. map (\<lambda>y. (x', y)) [0..<(if x' < x then h else if x' = x then k else 0)]) [0..<w],
      cells = (\<lambda>p. \<lparr>connectedCells =
                 (if c then {q. adjacent p q \<and> built h x k p \<and> built h x k q} else {}),
               info = i0\<rparr>)\<rparr>"

lemma for_each_invariant:
  assumes "for_each js body s = Inr s'" and "I s"
    and "\<And>j t t'. j \<in> set js \<Longrightarrow> I t \<Longrightarrow> body j t = Inr t' \<Longrightarrow> I t'"
  shows "I s'"
  using assms
proof (induction js arbitrary: s)
  case Nil
  then show ?case by simp
next
  case (Cons j js)
  from Cons.prems(1) obtain t where t: "body j s = Inr t" and r: "for_each js body t = Inr s'"
    by (auto simp: and_then_eq_Inr)
  have "I t" using Cons.prems(2,3) t by auto
  then show ?case using Cons.IH [OF r] Cons.prems(3) by auto
qed

lemma for_each_upt_steps:
  assumes "\<And>k. i \<le> k \<Longrightarrow> k < n \<Longrightarrow> body k (S k) = Inr (S (Suc k))" and "i \<le> n"
  shows "for_each [i..<n] body (S i) = Inr (S n)"
  using assms
proof (induction "n - i" arbitrary: i)
  case 0
  then show ?case by simp
next
  case (Suc d)
  then have "i < n" by simp
  then have "[i..<n] = i # [Suc i..<n]" by (simp add: upt_conv_Cons)
  moreover have "for_each [Suc i..<n] body (S (Suc i)) = Inr (S n)"
    using Suc by auto
  ultimately show ?case using Suc.prems(1) [of i] \<open>i < n\<close> by simp
qed

lemma cell_at_data: "data g = data g' \<Longrightarrow> cell_at g x y = cell_at g' x y"
  by (simp add: cell_at_def)

lemma cell_at_Connect [simp]: "cell_at (Connect g a b) x y = cell_at g x y"
  by (simp add: cell_at_def)

lemma cell_at_Disconnect [simp]: "cell_at (Disconnect g a b) x y = cell_at g x y"
  by (simp add: cell_at_def)

lemma cell_at_write_info [simp]: "cell_at (write_info g c f) x y = cell_at g x y"
  by (simp add: cell_at_def)

lemma cell_at_partial_grid:
  "cell_at (partial_grid i0 c w h x k) x' y' =
     (if x' < w \<and> (x' < x \<and> y' < h \<or> x' = x \<and> y' < k) then Inr (x', y') else Inl CellOutOfRange)"
  by (auto simp: cell_at_def partial_grid_def)

lemma connectedCells_Connect:
  "connectedCells (cells (Connect g a b) p) =
     connectedCells (cells g p) \<union> (if p = a then {b} else {}) \<union> (if p = b then {a} else {})"
  by (auto simp: Connect_def connectedCells_insert_def)

lemma connectedCells_Disconnect:
  "connectedCells (cells (Disconnect g a b) p) =
     connectedCells (cells g p) - (if p = a then {b} else {}) - (if p = b then {a} else {})"
  by (auto simp: Disconnect_def connectedCells_erase_def)

lemma connectedCells_write_info [simp]:
  "connectedCells (cells (write_info g c f) p) = connectedCells (cells g p)"
  by (simp add: write_info_def)

lemma adjacent_sym: "adjacent a b = adjacent b a"
  by (auto simp: adjacent_def)

lemma adjacent_irrefl [simp]: "\<not> adjacent a a"
  by (simp add: adjacent_def)

lemma adjacent_cases:
  "adjacent (x, y) q \<longleftrightarrow>
     q = (x + 1, y) \<or> q = (x, y + 1) \<or> (x > 0 \<and> q = (x - 1, y)) \<or> (y > 0 \<and> q = (x, y - 1))"
proof (cases q)
  case (Pair qx qy)
  show ?thesis unfolding Pair adjacent_def fst_conv snd_conv prod.inject
    by linarith
qed

lemma built_Suc: "built h x (Suc k) p \<longleftrightarrow> built h x k p \<or> p = (x, k)"
  by (cases p) (auto simp: built_def)

lemma not_built_new [simp]: "\<not> built h x k (x, k)"
  by (simp add: built_def)

lemma adjacent_new:
  assumes "k < h"
  shows "adjacent (x, k) q \<and> built h x k q \<longleftrightarrow>
           (x > 0 \<and> q = (x - 1, k)) \<or> (k > 0 \<and> q = (x, k - 1))"
  using assms unfolding adjacent_cases by (cases q) (auto simp: built_def)

lemma Init_cell_partial:
  assumes "x < w" "k < h"
  shows "Init_cell i0 c x k (partial_grid i0 c w h x k) = Inr (partial_grid i0 c w h x (Suc k))"
proof -
  let ?g = "partial_grid i0 c w h x k"
  let ?g' = "partial_grid i0 c w h x (Suc k)"
  define g1 where "g1 = ?g\<lparr>data := (data ?g)[x := data ?g ! x @ [(x, k)]],
                    cells := (cells ?g)((x, k) := \<lparr>connectedCells = {}, info = i0\<rparr>)\<rparr>"
  have d: "data g1 = data ?g'"
    using assms by (auto simp: g1_def partial_grid_def list_eq_iff_nth_eq nth_list_update nth_append)
  have len: "length (data ?g) = w" by (simp add: partial_grid_def)
  have at: "cell_at g1 x' y' = cell_at ?g' x' y'" for x' y'
    by (rule cell_at_data [OF d])
  define g2 where "g2 = (if c \<and> x > 0 then Connect g1 (x, k) (x - 1, k) else g1)"
  define g3 where "g3 = (if c \<and> k > 0 then Connect g2 (x, k) (x, k - 1) else g2)"
  have "Init_cell i0 c x k ?g = Inr g3"
    using assms len
    unfolding Init_cell_def Let_def g1_def [symmetric]
    by (auto simp: g2_def g3_def at cell_at_partial_grid)
  moreover have "g3 = ?g'"
  proof -
    have "data g3 = data ?g'" using d by (simp add: g3_def g2_def)
    moreover have "cells g3 p = cells ?g' p" for p
    proof -
      have i: "info (cells g3 p) = info (cells ?g' p)"
        by (simp add: g3_def g2_def g1_def partial_grid_def)
      have c1: "connectedCells (cells g1 p) =
                  (if c \<and> p \<noteq> (x, k) then {q. adjacent p q \<and> built h x k p \<and> built h x k q} else {})"
        by (simp add: g1_def partial_grid_def)
      have c2: "connectedCells (cells g2 p) = connectedCells (cells g1 p)
                  \<union> (if c \<and> x > 0 \<and> p = (x, k) then {(x - 1, k)} else {})
                  \<union> (if c \<and> x > 0 \<and> p = (x - 1, k) then {(x, k)} else {})"
        unfolding g2_def by (simp add: connectedCells_Connect)
      have c3': "connectedCells (cells g3 p) = connectedCells (cells g2 p)
                  \<union> (if c \<and> k > 0 \<and> p = (x, k) then {(x, k - 1)} else {})
                  \<union> (if c \<and> k > 0 \<and> p = (x, k - 1) then {(x, k)} else {})"
        unfolding g3_def by (simp add: connectedCells_Connect)
      note c3 = c3' [unfolded c2]
      have "connectedCells (cells g3 p) = connectedCells (cells ?g' p)"
      proof (cases c)
        case False
        then show ?thesis by (simp add: c3 c1 partial_grid_def)
      next
        case True
        have t: "connectedCells (cells ?g' p) = {q. adjacent p q \<and> built h x (Suc k) p \<and> built h x (Suc k) q}"
          using True by (simp add: partial_grid_def)
        show ?thesis
        proof (cases "p = (x, k)")
          case pk: True
          have "(adjacent p q \<and> built h x (Suc k) p \<and> built h x (Suc k) q)
                  = (adjacent (x, k) q \<and> built h x k q)" for q
            by (auto simp: pk built_Suc)
          then have "{q. adjacent p q \<and> built h x (Suc k) p \<and> built h x (Suc k) q}
                 = {q. (x > 0 \<and> q = (x - 1, k)) \<or> (k > 0 \<and> q = (x, k - 1))}"
            by (simp add: adjacent_new [OF assms(2), of x])
          then show ?thesis unfolding t c3 c1 using True pk by auto
        next
          case False
          have "q \<in> connectedCells (cells g3 p) \<longleftrightarrow> q \<in> connectedCells (cells ?g' p)" for q
          proof (cases "q = (x, k)")
            case qk: True
            have "adjacent p (x, k) \<and> built h x k p \<longleftrightarrow> (x > 0 \<and> p = (x - 1, k)) \<or> (k > 0 \<and> p = (x, k - 1))"
              using adjacent_new [OF assms(2), of x p] adjacent_sym [of p "(x, k)"] by blast
            then show ?thesis unfolding t c3 c1 using True False qk
              by (auto simp: built_Suc)
          next
            case qnk: False
            then show ?thesis unfolding t c3 c1 using True False
              by (auto simp: built_Suc)
          qed
          then show ?thesis by blast
        qed
      qed
      with i show ?thesis by simp
    qed
    ultimately show ?thesis by (simp add: fun_eq_iff)
  qed
  ultimately show ?thesis by simp
qed

lemma partial_grid_next: "partial_grid i0 c w h x h = partial_grid i0 c w h (Suc x) 0"
proof -
  have b: "built h x h p = built h (Suc x) 0 p" for p
    by (auto simp: built_def)
  have e: "(if x' < x then h else if x' = x then h else 0)
          = (if x' < Suc x then h else if x' = Suc x then 0 else 0)" for x'
    by auto
  show ?thesis unfolding partial_grid_def by (simp only: b e)
qed

lemma partial_grid_full: "partial_grid i0 c w h w 0 = full_grid i0 c w h"
proof -
  have b: "built h w 0 p = in_grid w h p" for p
    by (auto simp: built_def in_grid_def)
  have "map (\<lambda>x'. map (Pair x') [0..<(if x' < w then h else if x' = w then 0 else 0)]) [0..<w]
          = map (\<lambda>x'. map (Pair x') [0..<h]) [0..<w]"
    by simp
  then show ?thesis unfolding partial_grid_def full_grid_def grid_data_def by (simp only: b)
qed

lemma partial_grid_empty:
  "partial_grid i0 c w h 0 0 = \<lparr>data = replicate w [], cells = (\<lambda>p. \<lparr>connectedCells = {}, info = i0\<rparr>)\<rparr>"
proof -
  have b: "built h 0 0 p = False" for p
    by (auto simp: built_def)
  have "map (\<lambda>x'. []) [0..<w] = replicate w []"
    by (simp add: map_replicate_const)
  then show ?thesis unfolding partial_grid_def by (simp add: b cong: if_cong)
qed

lemma Init_column:
  assumes "x < w"
  shows "for_each [0..<h] (Init_cell i0 c x) (partial_grid i0 c w h x 0)
           = Inr (partial_grid i0 c w h (Suc x) 0)"
proof -
  have "for_each [0..<h] (Init_cell i0 c x) (partial_grid i0 c w h x 0)
          = Inr (partial_grid i0 c w h x h)"
    by (rule for_each_upt_steps) (simp_all add: Init_cell_partial [OF assms])
  then show ?thesis by (simp add: partial_grid_next)
qed

lemma Init_eq: "Init i0 w h c = Inr (full_grid i0 c w h)"
proof -
  have "for_each [0..<w] (\<lambda>x. for_each [0..<h] (Init_cell i0 c x)) (partial_grid i0 c w h 0 0)
          = Inr (partial_grid i0 c w h w 0)"
    by (rule for_each_upt_steps) (simp_all add: Init_column)
  then show ?thesis by (simp add: Init_def partial_grid_empty partial_grid_full)
qed

lemma Grid_eq: "Grid i0 width height c = Inr (full_grid i0 c (unat width) (unat height))"
  by (simp add: Grid_def Init_eq)


lemma more_Connect [simp]: "Grid.more (Connect g a b) = Grid.more g"
  by (simp add: Connect_def connectedCells_insert_def)

lemma more_Disconnect [simp]: "Grid.more (Disconnect g a b) = Grid.more g"
  by (simp add: Disconnect_def connectedCells_erase_def)

lemma info_Disconnect [simp]: "info (cells (Disconnect g a b) p) = info (cells g p)"
  by (auto simp: Disconnect_def connectedCells_erase_def)

lemma Cell_more_Connect [simp]: "Cell.more (cells (Connect g a b) p) = Cell.more (cells g p)"
  by (auto simp: Connect_def connectedCells_insert_def)

lemma Cell_more_Disconnect [simp]: "Cell.more (cells (Disconnect g a b) p) = Cell.more (cells g p)"
  by (auto simp: Disconnect_def connectedCells_erase_def)

lemma Grid_eqI:
  assumes "data g = data g'" "Grid.more g = Grid.more g'"
    and "\<And>p. connectedCells (cells g p) = connectedCells (cells g' p)"
    and "\<And>p. info (cells g p) = info (cells g' p)"
    and "\<And>p. Cell.more (cells g p) = Cell.more (cells g' p)"
  shows "g = g'"
proof -
  have "cells g p = cells g' p" for p
    using assms(3-5) by (simp add: Cell.equality)
  then have "cells g = cells g'" by (simp add: fun_eq_iff)
  then show ?thesis using assms(1,2) by (simp add: Grid.equality)
qed

lemma symmetric_Connect: "symmetric g \<Longrightarrow> symmetric (Connect g a b)"
  unfolding symmetric_def connectedCells_Connect by auto

lemma symmetric_Disconnect: "symmetric g \<Longrightarrow> symmetric (Disconnect g a b)"
  unfolding symmetric_def connectedCells_Disconnect by auto

lemma Connect_neighbours_fold:
  "Connect_neighbours g cell neighbours = fold (\<lambda>n g'. Connect g' cell n) neighbours g"
  by (cases neighbours) (simp_all add: Connect_neighbours_def Connect_def)

lemma symmetric_Connect_neighbours:
  "symmetric g \<Longrightarrow> symmetric (Connect_neighbours g cell neighbours)"
  unfolding Connect_neighbours_fold
  by (induction neighbours arbitrary: g) (simp_all add: symmetric_Connect)

lemma symmetric_DisconnectRow:
  assumes "DisconnectRow g origin idx width pathIdx = Inr g'" "symmetric g"
  shows "symmetric g'"
  using assms(1) [unfolded DisconnectRow_def] assms(2)
  by (rule for_each_invariant)
     (auto simp: and_then_eq_Inr symmetric_Disconnect split: if_splits)

lemma symmetric_DisconnectCol:
  assumes "DisconnectCol g origin idx height pathIdx = Inr g'" "symmetric g"
  shows "symmetric g'"
  using assms(1) [unfolded DisconnectCol_def] assms(2)
  by (rule for_each_invariant)
     (auto simp: and_then_eq_Inr symmetric_Disconnect split: if_splits)

lemma symmetric_full_grid: "symmetric (full_grid i0 c w h)"
  using adjacent_sym by (auto simp: symmetric_def full_grid_def)

lemma DisconnectRow_width_256: "DisconnectRow g origin idx (of_nat 256) pathIdx = Inr g"
  by (simp add: DisconnectRow_def)

lemma DisconnectCol_height_256: "DisconnectCol g origin idx (of_nat 256) pathIdx = Inr g"
  by (simp add: DisconnectCol_def)

section \<open>Invariants of the generators\<close>

text \<open>
  Every generator keeps the vector of columns as the constructor built it, and connects only
  cells that are neighbours in the grid. \<open>maze_inv w h\<close> is this invariant; the lemmas below
  carry it through the loops of each generator and show that the loops return.
\<close>

definition adjacent_only :: "'i Grid \<Rightarrow> bool" where
  "adjacent_only g = (\<forall>a b. b \<in> connectedCells (cells g a) \<longrightarrow> adjacent a b)"

definition maze_inv :: "nat \<Rightarrow> nat \<Rightarrow> 'i Grid \<Rightarrow> bool" where
  "maze_inv w h g = (data g = grid_data w h \<and> adjacent_only g)"

lemma for_each_cases:
  assumes "I s"
    and "\<And>j t. j \<in> set js \<Longrightarrow> I t \<Longrightarrow> (case body j t of Inl e \<Rightarrow> P e | Inr t' \<Rightarrow> I t')"
  shows "case for_each js body s of Inl e \<Rightarrow> P e | Inr s' \<Rightarrow> I s'"
  using assms
proof (induction js arbitrary: s)
  case Nil
  then show ?case by simp
next
  case (Cons j js)
  show ?case
  proof (cases "body j s")
    case (Inl e)
    then show ?thesis using Cons.prems(2) [of j s] Cons.prems(1) by simp
  next
    case (Inr t)
    then have "I t" using Cons.prems(2) [of j s] Cons.prems(1) by simp
    then show ?thesis using Cons.IH [of t] Cons.prems(2) Inr by simp
  qed
qed

lemma for_each_total:
  assumes "I s"
    and "\<And>j t. j \<in> set js \<Longrightarrow> I t \<Longrightarrow> \<exists>t'. body j t = Inr t' \<and> I t'"
  shows "\<exists>s'. for_each js body s = Inr s' \<and> I s'"
proof -
  have "case for_each js body s of Inl e \<Rightarrow> False | Inr s' \<Rightarrow> I s'"
  proof (rule for_each_cases [where I = I])
    show "I s" by fact
  next
    fix j t assume "j \<in> set js" "I t"
    then obtain t' where "body j t = Inr t' \<and> I t'" using assms(2) by blast
    then show "case body j t of Inl e \<Rightarrow> False | Inr t' \<Rightarrow> I t'" by simp
  qed
  then show ?thesis by (cases "for_each js body s") simp_all
qed

lemma cell_at_grid:
  "data g = grid_data w h \<Longrightarrow>
     cell_at g x y = (if x < w \<and> y < h then Inr (x, y) else Inl CellOutOfRange)"
  by (auto simp: cell_at_def grid_data_def)

lemma adjacent_only_Connect:
  "adjacent_only g \<Longrightarrow> adjacent a b \<Longrightarrow> adjacent_only (Connect g a b)"
  unfolding adjacent_only_def connectedCells_Connect using adjacent_sym by auto

lemma adjacent_only_Disconnect: "adjacent_only g \<Longrightarrow> adjacent_only (Disconnect g a b)"
  unfolding adjacent_only_def connectedCells_Disconnect by auto

lemma adjacent_only_write_info [simp]: "adjacent_only (write_info g c f) = adjacent_only g"
  by (simp add: adjacent_only_def)

lemma adjacent_only_full_grid: "adjacent_only (full_grid i0 c w h)"
  by (simp add: adjacent_only_def full_grid_def)

lemma data_full_grid [simp]: "data (full_grid i0 c w h) = grid_data w h"
  by (simp add: full_grid_def)

lemma maze_inv_full_grid: "maze_inv w h (full_grid i0 c w h)"
  by (simp add: maze_inv_def adjacent_only_full_grid)

lemma maze_inv_Connect: "maze_inv w h g \<Longrightarrow> adjacent a b \<Longrightarrow> maze_inv w h (Connect g a b)"
  by (simp add: maze_inv_def adjacent_only_Connect)

lemma maze_inv_Disconnect: "maze_inv w h g \<Longrightarrow> maze_inv w h (Disconnect g a b)"
  by (simp add: maze_inv_def adjacent_only_Disconnect)

lemma maze_inv_write_info [simp]: "maze_inv w h (write_info g c f) = maze_inv w h g"
  by (simp add: maze_inv_def)

lemma adjacent_west [simp]: "0 < x \<Longrightarrow> adjacent (x, y) (x - Suc 0, y)"
  by (simp add: adjacent_def)

lemma adjacent_north [simp]: "0 < y \<Longrightarrow> adjacent (x, y) (x, y - Suc 0)"
  by (simp add: adjacent_def)

lemma adjacent_east [simp]: "adjacent (x, y) (Suc x, y)"
  by (simp add: adjacent_def)

lemma adjacent_south [simp]: "adjacent (x, y) (x, Suc y)"
  by (simp add: adjacent_def)

lemma word_ge_1: "(1 \<le> (w :: 32 word)) = (w \<noteq> 0)"
  by (metis word_less_1 not_less)

subsection \<open>Binary tree\<close>

lemma BinaryTree_GetNeighbours_grid:
  assumes "data maze = grid_data w h" "x < w" "y < h"
  shows "BinaryTree_GetNeighbours maze (x, y)
           = Inr ((if x > 0 then [(x - 1, y)] else []) @ (if y > 0 then [(x, y - 1)] else []))"
  using assms by (auto simp: BinaryTree_GetNeighbours_def cell_at_grid)

lemma BinaryTree_cell_inv:
  assumes "maze_inv w h (fst s)" "x < w" "y < h"
  shows "\<exists>s'. BinaryTree_cell y x s = Inr s' \<and> maze_inv w h (fst s')"
proof -
  obtain maze mt where s: "s = (maze, mt)" by (cases s)
  have d: "data maze = grid_data w h" using assms(1) by (simp add: maze_inv_def s)
  define ns where "ns = (if x > 0 then [(x - 1, y)] else []) @ (if y > 0 then [(x, y - 1)] else [])"
  have adj: "adjacent (x, y) n" if "n \<in> set ns" for n
    using that by (auto simp: ns_def split: if_splits)
  have "ns \<noteq> [] \<Longrightarrow> ns ! (unat (mt 0) mod length ns) \<in> set ns"
    by simp
  then have "ns \<noteq> [] \<Longrightarrow> maze_inv w h (Connect maze (x, y) (ns ! (unat (mt 0) mod length ns)))"
    using adj assms(1) by (simp add: maze_inv_Connect s)
  then show ?thesis
    using assms unfolding s BinaryTree_cell_def
    by (simp add: cell_at_grid [OF d] BinaryTree_GetNeighbours_grid [OF d] ns_def [symmetric] Let_def)
qed

lemma BinaryTree_loops:
  fixes maze :: "'i Grid"
  assumes "maze_inv w h maze"
  shows "\<exists>s'. for_each [0..<h] (\<lambda>y. for_each [0..<w] (BinaryTree_cell y)) (maze, mt) = Inr s'
           \<and> maze_inv w h (fst s')"
proof (rule for_each_total [where I = "\<lambda>s. maze_inv w h (fst s)"])
  show "maze_inv w h (fst (maze, mt))" using assms by simp
next
  fix y and t :: "'i Grid \<times> mt19937"
  assume y: "y \<in> set [0..<h]" and t: "maze_inv w h (fst t)"
  show "\<exists>t'. for_each [0..<w] (BinaryTree_cell y) t = Inr t' \<and> maze_inv w h (fst t')"
  proof (rule for_each_total [where I = "\<lambda>s. maze_inv w h (fst s)"])
    show "maze_inv w h (fst t)" by fact
  next
    fix x and u :: "'i Grid \<times> mt19937"
    assume "x \<in> set [0..<w]" "maze_inv w h (fst u)"
    then show "\<exists>t'. BinaryTree_cell y x u = Inr t' \<and> maze_inv w h (fst t')"
      using BinaryTree_cell_inv [of w h u x y] y by simp
  qed
qed

lemma BinaryTreeGenerator_inv:
  assumes "width \<noteq> 0" "height \<noteq> 0"
  shows "\<exists>m. BinaryTreeGenerator width height mt = Inr (Some m) \<and> maze_inv (unat width) (unat height) m"
proof -
  have v: "\<not> (width < 1 \<or> height < 1)" using assms by simp
  have "\<exists>s'. for_each [0..<unat height] (\<lambda>y. for_each [0..<unat width] (BinaryTree_cell y))
                     (full_grid \<lparr>isVisited = False\<rparr> False (unat width) (unat height), mt) = Inr s'
          \<and> maze_inv (unat width) (unat height) (fst s')"
    by (rule BinaryTree_loops [OF maze_inv_full_grid])
  then show ?thesis using v by (auto simp: BinaryTreeGenerator_def Grid_eq)
qed

subsection \<open>Sidewinder\<close>

lemma ptr_set_insert_not_Nil [simp]: "ptr_set_insert addr c s \<noteq> []"
  by (cases s) auto

lemma u32_pred:
  "0 < y \<Longrightarrow> y < 4294967296 \<Longrightarrow> (4294967295 + y) mod 4294967296 = y - Suc 0"
proof -
  assume a: "0 < y" "y < 4294967296"
  then have "4294967295 + y = (y - 1) + 1 * 4294967296" by simp
  then have "(4294967295 + y) mod 4294967296 = (y - 1) mod 4294967296"
    by (metis mod_mult_self1)
  then show ?thesis using a by simp
qed

definition run_inv :: "nat \<Rightarrow> nat \<Rightarrow> nat \<Rightarrow> 'i Grid \<times> mt19937 \<times> Cell_ptr list \<Rightarrow> bool" where
  "run_inv w h y s = (maze_inv w h (fst s) \<and> (\<forall>c \<in> set (snd (snd s)). fst c < w \<and> snd c = y))"

lemma Sidewinder_cell_inv:
  assumes "run_inv w h y s" "x < w" "y < h" "h < 2 ^ 32"
  shows "\<exists>s'. Sidewinder_cell addr w y x s = Inr s' \<and> run_inv w h y s'"
proof -
  obtain maze mt runSet where s: "s = (maze, mt, runSet)" by (cases s)
  have inv: "maze_inv w h maze" and run: "\<forall>c \<in> set runSet. fst c < w \<and> snd c = y"
    using assms(1) by (simp_all add: run_inv_def s)
  have d: "data maze = grid_data w h" using inv by (simp add: maze_inv_def)
  have east: "maze_inv w h (Connect maze (x, y) (Suc x, y))"
    using inv by (simp add: maze_inv_Connect)
  show ?thesis
  proof (cases "y > 0")
    case False
    then show ?thesis
      using inv run east assms(2,3) unfolding s Sidewinder_cell_def
      by (simp add: cell_at_grid [OF d] run_inv_def Let_def)
  next
    case y: True
    define rs where "rs = ptr_set_insert addr (x, y) runSet"
    have run1: "\<forall>c \<in> set rs. fst c < w \<and> snd c = y"
      using run set_ptr_set_insert [of addr "(x, y)" runSet] assms(2) by (auto simp: rs_def)
    have ne: "rs \<noteq> []" by (simp add: rs_def)
    have el: "fst (rs ! (n mod length rs)) < w \<and> snd (rs ! (n mod length rs)) = y" for n
      using run1 ne by simp
    have pm: "(4294967295 + y) mod 4294967296 = y - Suc 0"
      using u32_pred [of y] y assms(3,4) by simp
    have "adjacent (rs ! (n mod length rs)) (fst (rs ! (n mod length rs)), y - Suc 0)" for n
      using adjacent_north [of y "fst (rs ! (n mod length rs))"] y el [of n]
      by (metis prod.collapse)
    then have north: "maze_inv w h (Connect maze (rs ! (n mod length rs))
                        (fst (rs ! (n mod length rs)), y - Suc 0))" for n
      using inv by (simp add: maze_inv_Connect)
    show ?thesis
      using y ne run1 east assms(2,3) unfolding s Sidewinder_cell_def
      by (auto simp: cell_at_grid [OF d] rs_def [symmetric] Let_def run_inv_def el pm north)
  qed
qed

lemma Sidewinder_row_inv:
  fixes s :: "'i Grid \<times> mt19937 \<times> Cell_ptr list"
  assumes "maze_inv w h (fst s)" "snd (snd s) = []" "y < h" "h < 2 ^ 32"
  shows "\<exists>s'. and_then (for_each [0..<w] (Sidewinder_cell addr w y) s)
                 (\<lambda>s'. Inr (fst s', fst (snd s'), [])) = Inr s'
           \<and> maze_inv w h (fst s') \<and> snd (snd s') = []"
proof -
  have "\<exists>s'. for_each [0..<w] (Sidewinder_cell addr w y) s = Inr s' \<and> run_inv w h y s'"
  proof (rule for_each_total [where I = "run_inv w h y"])
    show "run_inv w h y s" using assms(1,2) by (simp add: run_inv_def)
  next
    fix x and t :: "'i Grid \<times> mt19937 \<times> Cell_ptr list"
    assume "x \<in> set [0..<w]" "run_inv w h y t"
    then show "\<exists>t'. Sidewinder_cell addr w y x t = Inr t' \<and> run_inv w h y t'"
      using Sidewinder_cell_inv [of w h y t x addr] assms(3,4) by simp
  qed
  then show ?thesis by (auto simp: run_inv_def)
qed

lemma SidewinderGenerator_inv:
  assumes "width \<noteq> 0" "height \<noteq> 0"
  shows "\<exists>m. SidewinderGenerator addr width height mt = Inr (Some m)
           \<and> maze_inv (unat width) (unat height) m"
proof -
  let ?w = "unat width" and ?h = "unat height"
  have h: "?h < 2 ^ 32" using unsigned_less [of height] by simp
  have "\<exists>s'. for_each [0..<?h]
               (\<lambda>y s. and_then (for_each [0..<?w] (Sidewinder_cell addr ?w y) s)
                         (\<lambda>s'. Inr (fst s', fst (snd s'), [])))
               (full_grid \<lparr>isVisited = False\<rparr> False ?w ?h, mt, []) = Inr s'
          \<and> (maze_inv ?w ?h (fst s') \<and> snd (snd s') = [])"
  proof (rule for_each_total [where I = "\<lambda>s. maze_inv ?w ?h (fst s) \<and> snd (snd s) = []"])
    show "maze_inv ?w ?h (fst (full_grid \<lparr>isVisited = False\<rparr> False ?w ?h, mt, []))
            \<and> snd (snd (full_grid \<lparr>isVisited = False\<rparr> False ?w ?h, mt, [])) = []"
      by (simp add: maze_inv_full_grid)
  next
    fix y and t :: "CellInfoBase Grid \<times> mt19937 \<times> Cell_ptr list"
    assume "y \<in> set [0..<?h]" "maze_inv ?w ?h (fst t) \<and> snd (snd t) = []"
    then show "\<exists>t'. and_then (for_each [0..<?w] (Sidewinder_cell addr ?w y) t)
                 (\<lambda>s'. Inr (fst s', fst (snd s'), [])) = Inr t'
           \<and> (maze_inv ?w ?h (fst t') \<and> snd (snd t') = [])"
      using Sidewinder_row_inv [of ?w ?h t y addr] h by simp
  qed
  then show ?thesis using assms by (auto simp: SidewinderGenerator_def Grid_eq)
qed

subsection \<open>Recursive division\<close>

lemma DisconnectRow_inv:
  fixes g :: "'i Grid"
  assumes "maze_inv w h g" "w < 2 ^ 32" "h < 2 ^ 32"
    "fst origin + unat width \<le> w" "snd origin + unat idx + 1 < h"
  shows "\<exists>g'. DisconnectRow g origin idx width pathIdx = Inr g' \<and> maze_inv w h g'"
  unfolding DisconnectRow_def
proof (rule for_each_total [where I = "maze_inv w h"])
  show "maze_inv w h g" by fact
next
  fix x and t :: "'i Grid"
  assume x: "x \<in> set [0..<unat width]" and t: "maze_inv w h t"
  have d: "data t = grid_data w h" using t by (simp add: maze_inv_def)
  have 1: "(fst origin + x) mod 2 ^ 32 = fst origin + x" "fst origin + x < w"
    using x assms(2,4) by simp_all
  have 2: "(snd origin + unat idx) mod 2 ^ 32 = snd origin + unat idx"
    "(snd origin + unat idx + 1) mod 2 ^ 32 = snd origin + unat idx + 1"
    using assms(3,5) by simp_all
  show "\<exists>t'. (if x = unat pathIdx then Inr t
          else and_then (cell_at t ((fst origin + x) mod 2 ^ 32) ((snd origin + unat idx) mod 2 ^ 32))
            (\<lambda>a. and_then (cell_at t ((fst origin + x) mod 2 ^ 32)
                              ((snd origin + unat idx + 1) mod 2 ^ 32))
            (\<lambda>b. Inr (Disconnect t a b)))) = Inr t' \<and> maze_inv w h t'"
    unfolding 1 2 using t 1(2) assms(5)
    by (simp add: cell_at_grid [OF d] maze_inv_Disconnect)
qed

lemma DisconnectCol_inv:
  fixes g :: "'i Grid"
  assumes "maze_inv w h g" "w < 2 ^ 32" "h < 2 ^ 32"
    "snd origin + unat height \<le> h" "fst origin + unat idx + 1 < w"
  shows "\<exists>g'. DisconnectCol g origin idx height pathIdx = Inr g' \<and> maze_inv w h g'"
  unfolding DisconnectCol_def
proof (rule for_each_total [where I = "maze_inv w h"])
  show "maze_inv w h g" by fact
next
  fix y and t :: "'i Grid"
  assume y: "y \<in> set [0..<unat height]" and t: "maze_inv w h t"
  have d: "data t = grid_data w h" using t by (simp add: maze_inv_def)
  have 1: "(snd origin + y) mod 2 ^ 32 = snd origin + y" "snd origin + y < h"
    using y assms(3,4) by simp_all
  have 2: "(fst origin + unat idx) mod 2 ^ 32 = fst origin + unat idx"
    "(fst origin + unat idx + 1) mod 2 ^ 32 = fst origin + unat idx + 1"
    using assms(2,5) by simp_all
  show "\<exists>t'. (if y = unat pathIdx then Inr t
          else and_then (cell_at t ((fst origin + unat idx) mod 2 ^ 32) ((snd origin + y) mod 2 ^ 32))
            (\<lambda>a. and_then (cell_at t ((fst origin + unat idx + 1) mod 2 ^ 32)
                              ((snd origin + y) mod 2 ^ 32))
            (\<lambda>b. Inr (Disconnect t a b)))) = Inr t' \<and> maze_inv w h t'"
    unfolding 1 2 using t 1(2) assms(5)
    by (simp add: cell_at_grid [OF d] maze_inv_Disconnect)
qed

lemma unat_of_nat_8_le: "unat (of_nat n :: 8 word) \<le> n"
  by (simp add: unat_of_nat)

lemma Compute_inv:
  fixes maze :: "'i Grid"
  assumes "maze_inv w h maze" "w < 2 ^ 32" "h < 2 ^ 32"
    "fst origin + width \<le> w" "snd origin + height \<le> h"
  shows "\<exists>t. Compute mt maze origin width height = Inr t \<and> maze_inv w h (fst t)"
  using assms
proof (induction "width + height" arbitrary: mt maze origin width height rule: less_induct)
  case less
  show ?case
  proof (cases "width < 2 \<or> height < 2")
    case True
    then show ?thesis using less.prems(1) by simp
  next
    case False
    define r1 where "r1 = unat (mt_next mt 0)"
    define r2 where "r2 = unat (mt_next (mt_next mt) 0)"
    define mt3 where "mt3 = mt_next (mt_next (mt_next mt))"
    show ?thesis
    proof (cases "unat (mt 0) mod 2 = 0")
      case hc: True
      define wallIdx where "wallIdx = r1 mod (height - 1)"
      have "r1 mod (height - 1) < height - 1" using False by simp
      then have wl: "wallIdx + 1 < height" by (simp add: wallIdx_def)
      have wm: "(wallIdx + 1) mod 2 ^ 32 = wallIdx + 1"
        "(snd origin + wallIdx + 1) mod 2 ^ 32 = snd origin + wallIdx + 1"
        using wl less.prems(3,5) by simp_all
      have "fst origin + unat (of_nat width :: 8 word) \<le> w"
        using unat_of_nat_8_le [of width] less.prems(4) by linarith
      moreover have "snd origin + unat (of_nat wallIdx :: 8 word) + 1 < h"
        using unat_of_nat_8_le [of wallIdx] wl less.prems(5) by linarith
      ultimately obtain maze1 where
        m1: "DisconnectRow maze origin (of_nat wallIdx) (of_nat width) (of_nat (r2 mod width)) = Inr maze1"
        and i1: "maze_inv w h maze1"
        using DisconnectRow_inv [OF less.prems(1-3)] by blast
      obtain t1 where t1: "Compute mt3 maze1 origin width ((wallIdx + 1) mod 2 ^ 32) = Inr t1"
        and i2: "maze_inv w h (fst t1)"
        unfolding wm
        using less.hyps [of width "wallIdx + 1" maze1 origin mt3] i1 less.prems(2-5) wl
        by auto
      obtain t2 where t2: "Compute (snd t1) (fst t1)
                             (fst origin, (snd origin + wallIdx + 1) mod 2 ^ 32)
                             width (height - wallIdx - 1) = Inr t2"
        and i3: "maze_inv w h (fst t2)"
        unfolding wm
        using less.hyps [of width "height - wallIdx - 1" "fst t1"
                "(fst origin, snd origin + wallIdx + 1)" "snd t1"] i2 less.prems(2-5) wl
        by auto
      have "Compute mt maze origin width height = Inr t2"
        by (subst Compute.simps)
           (simp only: False hc Let_def if_False if_True refl sum.case
              m1 [unfolded wallIdx_def r1_def r2_def]
              t1 [unfolded wallIdx_def r1_def mt3_def]
              t2 [unfolded wallIdx_def r1_def])
      then show ?thesis using i3 by simp
    next
      case vc: False
      define wallIdx where "wallIdx = r1 mod (width - 1)"
      have "r1 mod (width - 1) < width - 1" using False by simp
      then have wl: "wallIdx + 1 < width" by (simp add: wallIdx_def)
      have wm: "(wallIdx + 1) mod 2 ^ 32 = wallIdx + 1"
        "(fst origin + wallIdx + 1) mod 2 ^ 32 = fst origin + wallIdx + 1"
        using wl less.prems(2,4) by simp_all
      have "snd origin + unat (of_nat height :: 8 word) \<le> h"
        using unat_of_nat_8_le [of height] less.prems(5) by linarith
      moreover have "fst origin + unat (of_nat wallIdx :: 8 word) + 1 < w"
        using unat_of_nat_8_le [of wallIdx] wl less.prems(4) by linarith
      ultimately obtain maze1 where
        m1: "DisconnectCol maze origin (of_nat wallIdx) (of_nat height) (of_nat (r2 mod height)) = Inr maze1"
        and i1: "maze_inv w h maze1"
        using DisconnectCol_inv [OF less.prems(1-3)] by blast
      obtain t1 where t1: "Compute mt3 maze1 origin ((wallIdx + 1) mod 2 ^ 32) height = Inr t1"
        and i2: "maze_inv w h (fst t1)"
        unfolding wm
        using less.hyps [of "wallIdx + 1" height maze1 origin mt3] i1 less.prems(2-5) wl
        by auto
      obtain t2 where t2: "Compute (snd t1) (fst t1)
                             ((fst origin + wallIdx + 1) mod 2 ^ 32, snd origin)
                             (width - wallIdx - 1) height = Inr t2"
        and i3: "maze_inv w h (fst t2)"
        unfolding wm
        using less.hyps [of "width - wallIdx - 1" height "fst t1"
                "(fst origin + wallIdx + 1, snd origin)" "snd t1"] i2 less.prems(2-5) wl
        by auto
      have "Compute mt maze origin width height = Inr t2"
        by (subst Compute.simps)
           (simp only: False vc Let_def if_False if_True refl sum.case
              m1 [unfolded wallIdx_def r1_def r2_def]
              t1 [unfolded wallIdx_def r1_def mt3_def]
              t2 [unfolded wallIdx_def r1_def])
      then show ?thesis using i3 by simp
    qed
  qed
qed

lemma RecursiveDivisionGenerator_inv:
  assumes "width \<noteq> 0" "height \<noteq> 0"
  shows "\<exists>m. RecursiveDivisionGenerator width height mt = Inr (Some m)
           \<and> maze_inv (unat width) (unat height) m"
proof -
  have "unat width < 2 ^ 32" "unat height < 2 ^ 32"
    using unsigned_less [of width] unsigned_less [of height] by simp_all
  then have "\<exists>t. Compute mt (full_grid \<lparr>isVisited = False\<rparr> True (unat width) (unat height))
                 (0, 0) (unat width) (unat height) = Inr t
               \<and> maze_inv (unat width) (unat height) (fst t)"
    by (intro Compute_inv maze_inv_full_grid) simp_all
  then show ?thesis using assms by (auto simp: RecursiveDivisionGenerator_def Grid_eq)
qed

subsection \<open>Prim's\<close>

definition near :: "nat \<Rightarrow> nat \<Rightarrow> Cell_ptr \<Rightarrow> Cell_ptr list \<Rightarrow> bool" where
  "near w h c ns = (\<forall>n \<in> set ns. in_grid w h n \<and> adjacent c n)"

definition prims_inv :: "nat \<Rightarrow> nat \<Rightarrow> CellInfo Grid \<times> mt19937 \<times> Cell_ptr list \<Rightarrow> bool" where
  "prims_inv w h s = (maze_inv w h (fst s) \<and> (\<forall>c \<in> set (snd (snd s)). in_grid w h c))"

lemma unat_Width_grid:
  "data g = grid_data w h \<Longrightarrow> w < 2 ^ 32 \<Longrightarrow> unat (Width g) = w"
  by (simp add: Width_def grid_data_def unat_of_nat)

lemma unat_Height_grid:
  "data g = grid_data w h \<Longrightarrow> h < 2 ^ 32 \<Longrightarrow> 0 < w \<Longrightarrow> unat (Height g) = h"
  by (simp add: Height_def grid_data_def unat_of_nat)

lemma Prims_push_near:
  assumes "data maze = grid_data w h" "available \<Longrightarrow> i < w \<and> j < h \<and> adjacent c (i, j)"
    "near w h c ns"
  shows "\<exists>ns'. Prims_push maze visited available i j ns = Inr ns' \<and> near w h c ns'"
  using assms by (auto simp: Prims_push_def cell_at_grid near_def in_grid_def)

lemma u32_pred_avail:
  assumes "x < 2 ^ 32" "(x + 2 ^ 32 - 1) mod 2 ^ 32 < (2 ^ 31 :: nat)"
  shows "0 < x \<and> (x + 2 ^ 32 - 1) mod 2 ^ 32 = x - 1"
proof (cases "x = 0")
  case True
  then show ?thesis using assms(2) by simp
next
  case False
  then have "x + 2 ^ 32 - 1 = (x - 1) + 1 * 2 ^ 32" by simp
  then have "(x + 2 ^ 32 - 1) mod 2 ^ 32 = (x - 1) mod 2 ^ 32" by (metis mod_mult_self1)
  then show ?thesis using False assms(1) by simp
qed

lemma u32_succ_avail:
  assumes "x < w" "w < 2 ^ 32"
  shows "(x + 1) mod 2 ^ 32 = x + (1::nat)"
  using assms by simp

lemma Prims_GetNeighbours_near:
  assumes "maze_inv w h maze" "w < 2 ^ 32" "h < 2 ^ 32" "x < w" "y < h"
  shows "\<exists>ns. Prims_GetNeighbours maze (x, y) visited = Inr ns \<and> near w h (x, y) ns"
proof -
  have d: "data maze = grid_data w h" using assms(1) by (simp add: maze_inv_def)
  have W: "unat (Width maze) = w" using unat_Width_grid [OF d assms(2)] .
  have H: "unat (Height maze) = h" using unat_Height_grid [OF d assms(3)] assms(4) by simp
  have x: "x < 2 ^ 32" "y < 2 ^ 32" using assms(2-5) by simp_all
  have n0: "near w h (x, y) []" by (simp add: near_def)
  have a1: "(x + 2 ^ 32 - 1) mod 2 ^ 32 < w \<and> y < h
              \<and> adjacent (x, y) ((x + 2 ^ 32 - 1) mod 2 ^ 32, y)"
    if "(x + 2 ^ 32 - 1) mod 2 ^ 32 < 2 ^ 31"
  proof -
    have "0 < x" "(x + 2 ^ 32 - 1) mod 2 ^ 32 = x - 1"
      using u32_pred_avail [OF x(1) that] by simp_all
    then show ?thesis using assms(4,5) by simp
  qed
  have a2: "x < w \<and> (y + 2 ^ 32 - 1) mod 2 ^ 32 < h
              \<and> adjacent (x, y) (x, (y + 2 ^ 32 - 1) mod 2 ^ 32)"
    if "(y + 2 ^ 32 - 1) mod 2 ^ 32 < 2 ^ 31"
  proof -
    have "0 < y" "(y + 2 ^ 32 - 1) mod 2 ^ 32 = y - 1"
      using u32_pred_avail [OF x(2) that] by simp_all
    then show ?thesis using assms(4,5) by simp
  qed
  have a3: "(x + 1) mod 2 ^ 32 < w \<and> y < h \<and> adjacent (x, y) ((x + 1) mod 2 ^ 32, y)"
    if "(x + 1) mod 2 ^ 32 < unat (Width maze)"
    using that assms(5) unfolding W u32_succ_avail [OF assms(4,2)] by simp
  have a4: "x < w \<and> (y + 1) mod 2 ^ 32 < h \<and> adjacent (x, y) (x, (y + 1) mod 2 ^ 32)"
    if "(y + 1) mod 2 ^ 32 < unat (Height maze)"
    using that assms(4) unfolding H u32_succ_avail [OF assms(5,3)] by simp
  obtain n1 where
    p1: "Prims_push maze visited ((x + 2 ^ 32 - 1) mod 2 ^ 32 < 2 ^ 31)
           ((x + 2 ^ 32 - 1) mod 2 ^ 32) y [] = Inr n1" and n1: "near w h (x, y) n1"
    using Prims_push_near [OF d a1 n0] by blast
  obtain n2 where
    p2: "Prims_push maze visited ((y + 2 ^ 32 - 1) mod 2 ^ 32 < 2 ^ 31)
           x ((y + 2 ^ 32 - 1) mod 2 ^ 32) n1 = Inr n2" and n2: "near w h (x, y) n2"
    using Prims_push_near [OF d a2 n1] by blast
  obtain n3 where
    p3: "Prims_push maze visited ((x + 1) mod 2 ^ 32 < unat (Width maze))
           ((x + 1) mod 2 ^ 32) y n2 = Inr n3" and n3: "near w h (x, y) n3"
    using Prims_push_near [OF d a3 n2] by blast
  obtain n4 where
    p4: "Prims_push maze visited ((y + 1) mod 2 ^ 32 < unat (Height maze))
           x ((y + 1) mod 2 ^ 32) n3 = Inr n4" and n4: "near w h (x, y) n4"
    using Prims_push_near [OF d a4 n3] by blast
  have "Prims_GetNeighbours maze (x, y) visited = Inr n4"
    unfolding Prims_GetNeighbours_def Let_def fst_conv snd_conv
    by (simp only: p1 p2 p3 p4 and_then_simps)
  then show ?thesis using n4 by simp
qed

lemma set_fold_ptr_set_insert_subset:
  "set (fold (ptr_set_insert addr) ns s) \<subseteq> set s \<union> set ns"
proof (induction ns arbitrary: s)
  case Nil
  then show ?case by simp
next
  case (Cons n ns)
  have "set (ptr_set_insert addr n s) \<subseteq> insert n (set s)" using set_ptr_set_insert by blast
  then show ?case using Cons [of "ptr_set_insert addr n s"] by auto
qed

lemma Prims_step_inv:
  assumes "prims_inv w h s" "snd (snd s) \<noteq> []" "w < 2 ^ 32" "h < 2 ^ 32"
  shows "\<exists>s'. Prims_step addr s = Inr s' \<and> prims_inv w h s'"
proof -
  obtain maze mt pathSet where s: "s = (maze, mt, pathSet)" by (cases s)
  have inv: "maze_inv w h maze" and ps: "\<forall>c \<in> set pathSet. in_grid w h c" and ne: "pathSet \<noteq> []"
    using assms(1,2) by (simp_all add: prims_inv_def s)
  define c where "c = pathSet ! (unat (mt 0) mod length pathSet)"
  have "c \<in> set pathSet" using ne by (simp add: c_def)
  then have cg: "fst c < w" "snd c < h" using ps by (auto simp: in_grid_def)
  define maze1 where "maze1 = write_info maze c (\<lambda>i. i\<lparr>isVisited := True\<rparr>)"
  have i1: "maze_inv w h maze1" using inv by (simp add: maze1_def)
  obtain ns where g1: "Prims_GetNeighbours maze1 c True = Inr ns" and n1: "near w h c ns"
    using Prims_GetNeighbours_near [OF i1 assms(3,4) cg, of True] by auto
  define s2 where "s2 = (if ns \<noteq> []
       then (Connect (write_info maze1 c (\<lambda>i. i\<lparr>rootDistance :=
                (rootDistance (info (cells maze1 (ns ! (unat (mt_next mt 0) mod length ns)))) + 1)
                  mod 2 ^ 64\<rparr>)) c (ns ! (unat (mt_next mt 0) mod length ns)),
             mt_next (mt_next mt))
       else (maze1, mt_next mt))"
  have "ns \<noteq> [] \<Longrightarrow> adjacent c (ns ! (unat (mt_next mt 0) mod length ns))"
    using n1 by (simp add: near_def)
  then have i2: "maze_inv w h (fst s2)"
    using i1 by (simp add: s2_def maze_inv_Connect)
  obtain ns2 where g2: "Prims_GetNeighbours (fst s2) c False = Inr ns2" and n2: "near w h c ns2"
    using Prims_GetNeighbours_near [OF i2 assms(3,4) cg, of False] by auto
  have st: "Prims_step addr s = Inr (fst s2, snd s2,
              remove1 c (fold (ptr_set_insert addr) ns2 pathSet))"
    unfolding s Prims_step_def Let_def prod.case c_def [symmetric] maze1_def [symmetric]
    by (simp only: g1 and_then_simps s2_def [symmetric] g2)
  have "set (remove1 c (fold (ptr_set_insert addr) ns2 pathSet)) \<subseteq> set pathSet \<union> set ns2"
    using set_fold_ptr_set_insert_subset [of addr ns2 pathSet] set_remove1_subset by fastforce
  then have "\<forall>c \<in> set (remove1 c (fold (ptr_set_insert addr) ns2 pathSet)). in_grid w h c"
    using ps n2 by (auto simp: near_def)
  then show ?thesis using st i2 by (simp add: prims_inv_def)
qed

lemma Prims_loop_inv:
  assumes "prims_inv w h s" "w < 2 ^ 32" "h < 2 ^ 32"
  shows "\<exists>m. Prims_loop addr s = Inr m \<and> maze_inv w h m"
  using assms
proof (induction addr s rule: Prims_loop.induct)
  case (1 addr s)
  show ?case
  proof (cases "snd (snd s) = []")
    case True
    then show ?thesis using "1.prems"(1) by (simp add: prims_inv_def)
  next
    case False
    obtain s' where st: "Prims_step addr s = Inr s'" and i: "prims_inv w h s'"
      using Prims_step_inv [OF "1.prems"(1) False "1.prems"(2,3)] by blast
    have "\<exists>m. Prims_loop addr s' = Inr m \<and> maze_inv w h m"
      using "1.IH" [OF False st i "1.prems"(2,3)] .
    then show ?thesis using False st by (subst Prims_loop.simps) simp
  qed
qed

lemma PrimsGenerator_inv:
  assumes "width \<noteq> 0" "height \<noteq> 0" "fst startPoint < width" "snd startPoint < height"
  shows "\<exists>m. PrimsGenerator addr width height startPoint mt = Inr (Some m)
           \<and> maze_inv (unat width) (unat height) m"
proof -
  let ?w = "unat width" and ?h = "unat height"
  let ?g = "full_grid \<lparr>isVisited = False, rootDistance = 0\<rparr> False ?w ?h"
  let ?c = "(unat (fst startPoint), unat (snd startPoint))"
  have wh: "?w < 2 ^ 32" "?h < 2 ^ 32"
    using unsigned_less [of width] unsigned_less [of height] by simp_all
  have sp: "unat (fst startPoint) < ?w" "unat (snd startPoint) < ?h"
    using assms(3,4) by (simp_all add: word_less_nat_alt)
  have v: "\<not> (width < 1 \<or> height < 1 \<or> fst startPoint \<ge> width \<or> snd startPoint \<ge> height)"
    using assms by (simp add: not_le)
  define maze1 where "maze1 = write_info ?g ?c (\<lambda>i. i\<lparr>rootDistance := 0\<rparr>)"
  have i1: "maze_inv ?w ?h maze1" by (simp add: maze1_def maze_inv_full_grid)
  have "prims_inv ?w ?h (maze1, mt, ptr_set_insert addr ?c [])"
    using i1 sp by (simp add: prims_inv_def in_grid_def)
  then obtain m where "Prims_loop addr (maze1, mt, ptr_set_insert addr ?c []) = Inr m"
    and "maze_inv ?w ?h m"
    using Prims_loop_inv [OF _ wh] by blast
  then show ?thesis
    using v sp unfolding PrimsGenerator_def
    by (simp add: Grid_eq cell_at_grid [of _ ?w ?h] Let_def maze1_def [symmetric])
qed

subsection \<open>Kruskal's\<close>

definition edges_adjacent :: "Edge list \<Rightarrow> bool" where
  "edges_adjacent edges = (\<forall>e \<in> set edges. adjacent (fst e) (snd e))"

definition fill_inv ::
  "nat \<Rightarrow> nat \<Rightarrow> CellInfoBucket Grid \<times> Edge list \<times> Cell_ptr list list \<times> nat \<Rightarrow> bool" where
  "fill_inv w h s = (maze_inv w h (fst s) \<and> edges_adjacent (fst (snd s)))"

definition loop_inv ::
  "nat \<Rightarrow> nat \<Rightarrow> CellInfoBucket Grid \<times> mt19937 \<times> Edge list \<times> Cell_ptr list list \<Rightarrow> bool" where
  "loop_inv w h s = (maze_inv w h (fst s) \<and> edges_adjacent (fst (snd (snd s))))"

lemma set_edge_set_insert: "set (edge_set_insert e s) \<subseteq> insert e (set s)"
  by (induction s) auto

lemma edges_adjacent_insert:
  "edges_adjacent edges \<Longrightarrow> adjacent (fst e) (snd e) \<Longrightarrow> edges_adjacent (edge_set_insert e edges)"
  using set_edge_set_insert [of e edges] by (auto simp: edges_adjacent_def)

lemma edges_adjacent_erase:
  "edges_adjacent edges \<Longrightarrow> edges_adjacent (take k edges @ drop (Suc k) edges)"
  by (auto simp: edges_adjacent_def dest: in_set_takeD in_set_dropD)

lemma Kruskals_fill_cell_cases:
  assumes "fill_inv w h s" "x < w" "y < h" "w < 2 ^ 32" "h < 2 ^ 32"
  shows "case Kruskals_fill_cell x y s of Inl e \<Rightarrow> e = BucketOutOfRange | Inr s' \<Rightarrow> fill_inv w h s'"
proof -
  obtain maze edges bucketCells nodeId where s: "s = (maze, edges, bucketCells, nodeId)"
    by (cases s)
  have inv: "maze_inv w h maze" and ea: "edges_adjacent edges"
    using assms(1) by (simp_all add: fill_inv_def s)
  have d: "data maze = grid_data w h" using inv by (simp add: maze_inv_def)
  define maze1 where "maze1 = write_info maze (x, y) (\<lambda>i. i\<lparr>bucketId := nodeId\<rparr>)"
  have i1: "maze_inv w h maze1" using inv by (simp add: maze1_def)
  have d1: "data maze1 = grid_data w h" using d by (simp add: maze1_def)
  have W: "unat (Width maze1) = w" using unat_Width_grid [OF d1 assms(4)] .
  have H: "unat (Height maze1) = h" using unat_Height_grid [OF d1 assms(5)] assms(2) by simp
  have m: "(x + 1) mod 2 ^ 32 = x + 1" "(y + 1) mod 2 ^ 32 = y + 1"
    using assms(2-5) by simp_all
  define edges1 where "edges1 = (if x + 1 < w then edge_set_insert ((x, y), (x + 1, y)) edges else edges)"
  define edges2 where "edges2 = (if y + 1 < h then edge_set_insert ((x, y), (x, y + 1)) edges1 else edges1)"
  have e1: "edges_adjacent edges1" using ea by (simp add: edges1_def edges_adjacent_insert)
  have e2: "edges_adjacent edges2" using e1 by (simp add: edges2_def edges_adjacent_insert)
  have r1: "(if (x + 1) mod 2 ^ 32 < unat (Width maze1)
                      then and_then (cell_at maze1 ((x + 1) mod 2 ^ 32) y)
                             (\<lambda>r. Inr (edge_set_insert ((x, y), r) edges))
                      else Inr edges) = Inr edges1"
    unfolding m W using assms(3) by (simp add: cell_at_grid [OF d1] edges1_def)
  have r2: "(if (y + 1) mod 2 ^ 32 < unat (Height maze1)
                      then and_then (cell_at maze1 x ((y + 1) mod 2 ^ 32))
                             (\<lambda>b. Inr (edge_set_insert ((x, y), b) edges1))
                      else Inr edges1) = Inr edges2"
    unfolding m H using assms(2) by (simp add: cell_at_grid [OF d1] edges2_def)
  have c: "cell_at maze x y = Inr (x, y)" using assms(2,3) by (simp add: cell_at_grid [OF d])
  have "Kruskals_fill_cell x y s =
          (if nodeId < length bucketCells
           then Inr (maze1, edges2, bucketCells[nodeId := bucketCells ! nodeId @ [(x, y)]],
                     (nodeId + 1) mod 2 ^ 64)
           else Inl BucketOutOfRange)"
    unfolding s Kruskals_fill_cell_def prod.case c and_then_simps Let_def maze1_def [symmetric]
    by (simp only: r1 r2 and_then_simps)
  then show ?thesis using i1 e2 by (simp add: fill_inv_def)
qed

lemma Kruskals_fill_cases:
  fixes s :: "CellInfoBucket Grid \<times> Edge list \<times> Cell_ptr list list \<times> nat"
  assumes "fill_inv w h s" "w < 2 ^ 32" "h < 2 ^ 32"
  shows "case for_each [0..<w] (\<lambda>x. for_each [0..<h] (Kruskals_fill_cell x)) s of
           Inl e \<Rightarrow> e = BucketOutOfRange | Inr s' \<Rightarrow> fill_inv w h s'"
proof (rule for_each_cases [where I = "fill_inv w h"])
  show "fill_inv w h s" by fact
next
  fix x and t :: "CellInfoBucket Grid \<times> Edge list \<times> Cell_ptr list list \<times> nat"
  assume x: "x \<in> set [0..<w]" and t: "fill_inv w h t"
  show "case for_each [0..<h] (Kruskals_fill_cell x) t of
           Inl e \<Rightarrow> e = BucketOutOfRange | Inr s' \<Rightarrow> fill_inv w h s'"
  proof (rule for_each_cases [where I = "fill_inv w h"])
    show "fill_inv w h t" by fact
  next
    fix y and u :: "CellInfoBucket Grid \<times> Edge list \<times> Cell_ptr list list \<times> nat"
    assume "y \<in> set [0..<h]" "fill_inv w h u"
    then show "case Kruskals_fill_cell x y u of
           Inl e \<Rightarrow> e = BucketOutOfRange | Inr s' \<Rightarrow> fill_inv w h s'"
      using Kruskals_fill_cell_cases [of w h u x y] x assms(2,3) by simp
  qed
qed

lemma MergeBucket_cases:
  assumes "maze_inv w h (fst s)"
  shows "case MergeBucket s fromId ToId of
           Inl e \<Rightarrow> e = BucketOutOfRange | Inr s' \<Rightarrow> maze_inv w h (fst s')"
proof (cases "fromId \<noteq> ToId \<and> fromId < length (snd s)")
  case False
  then show ?thesis using assms by (auto simp: MergeBucket_def)
next
  case True
  have "case for_each (snd s ! fromId)
                (\<lambda>it t. if ToId < length (snd t)
                   then Inr (write_info (fst t) it (\<lambda>i. i\<lparr>bucketId := ToId\<rparr>),
                             (snd t)[ToId := snd t ! ToId @ [it]])
                   else Inl BucketOutOfRange) s of
          Inl e \<Rightarrow> e = BucketOutOfRange | Inr s' \<Rightarrow> maze_inv w h (fst s')"
    by (rule for_each_cases [where I = "\<lambda>s. maze_inv w h (fst s)"]) (simp_all add: assms)
  then show ?thesis using True by (auto simp: MergeBucket_def split: sum.splits)
qed

lemma Kruskals_step_cases:
  assumes "loop_inv w h s" "fst (snd (snd s)) \<noteq> []"
  shows "case Kruskals_step s of Inl e \<Rightarrow> e = BucketOutOfRange | Inr s' \<Rightarrow> loop_inv w h s'"
proof -
  obtain maze mt edges bucketCells where s: "s = (maze, mt, edges, bucketCells)" by (cases s)
  have inv: "maze_inv w h maze" and ea: "edges_adjacent edges" and ne: "edges \<noteq> []"
    using assms by (simp_all add: loop_inv_def s)
  define k where "k = unat (mt 0) mod length edges"
  define e where "e = edges ! k"
  define fb where "fb = bucketId (info (cells maze (fst e)))"
  define sb where "sb = bucketId (info (cells maze (snd e)))"
  have ee: "edges_adjacent (take k edges @ drop (Suc k) edges)"
    using ea by (rule edges_adjacent_erase)
  show ?thesis
  proof (cases "fb \<noteq> sb")
    case False
    then show ?thesis using inv ee unfolding s Kruskals_step_def
      by (simp add: Let_def k_def [symmetric] e_def [symmetric] fb_def [symmetric]
            sb_def [symmetric] loop_inv_def)
  next
    case True
    have "e \<in> set edges" using ne by (simp add: e_def k_def)
    then have "adjacent (fst e) (snd e)" using ea by (simp add: edges_adjacent_def)
    then have "maze_inv w h (Connect maze (fst e) (snd e))" using inv by (simp add: maze_inv_Connect)
    then have "case MergeBucket (Connect maze (fst e) (snd e), bucketCells)
                      (fb mod 2 ^ 32) (sb mod 2 ^ 32) of
                 Inl e \<Rightarrow> e = BucketOutOfRange | Inr s' \<Rightarrow> maze_inv w h (fst s')"
      using MergeBucket_cases [of w h "(Connect maze (fst e) (snd e), bucketCells)"] by simp
    then show ?thesis using True ee unfolding s Kruskals_step_def
      by (simp add: Let_def k_def [symmetric] e_def [symmetric] fb_def [symmetric]
            sb_def [symmetric] loop_inv_def split: sum.splits)
  qed
qed

lemma Kruskals_loop_cases:
  assumes "loop_inv w h s"
  shows "case Kruskals_loop s of Inl e \<Rightarrow> e = BucketOutOfRange | Inr m \<Rightarrow> maze_inv w h m"
  using assms
proof (induction s rule: Kruskals_loop.induct)
  case (1 s)
  show ?case
  proof (cases "fst (snd (snd s)) = []")
    case True
    then show ?thesis using "1.prems" by (simp add: loop_inv_def)
  next
    case False
    show ?thesis
    proof (cases "Kruskals_step s")
      case (Inl e)
      then show ?thesis using Kruskals_step_cases [OF "1.prems" False] False
        by (subst Kruskals_loop.simps) simp
    next
      case (Inr s')
      then have "loop_inv w h s'" using Kruskals_step_cases [OF "1.prems" False] by simp
      then have "case Kruskals_loop s' of Inl e \<Rightarrow> e = BucketOutOfRange | Inr m \<Rightarrow> maze_inv w h m"
        using "1.IH" [OF False Inr] by simp
      then show ?thesis using False Inr by (subst Kruskals_loop.simps) simp
    qed
  qed
qed

lemma KruskalsGenerator_cases:
  "case KruskalsGenerator width height mt of
     Inl e \<Rightarrow> e = BucketOutOfRange
   | Inr None \<Rightarrow> width = 0 \<or> height = 0
   | Inr (Some m) \<Rightarrow> width \<noteq> 0 \<and> height \<noteq> 0 \<and> maze_inv (unat width) (unat height) m"
proof (cases "width < 1 \<or> height < 1")
  case True
  then show ?thesis by (auto simp: KruskalsGenerator_def)
next
  case False
  let ?w = "unat width" and ?h = "unat height"
  let ?g = "full_grid \<lparr>isVisited = False, bucketId = 0\<rparr> False ?w ?h"
  have wh: "?w < 2 ^ 32" "?h < 2 ^ 32"
    using unsigned_less [of width] unsigned_less [of height] by simp_all
  have w0: "0 < ?w" using False by (simp add: unat_gt_0)
  have W: "unat (Width ?g) = ?w" by (rule unat_Width_grid [OF data_full_grid wh(1)])
  have H: "unat (Height ?g) = ?h" by (rule unat_Height_grid [OF data_full_grid wh(2) w0])
  define filled where "filled = for_each [0..<?w] (\<lambda>x. for_each [0..<?h] (Kruskals_fill_cell x))
                       (?g, [], replicate (unat (height * width)) [], 0)"
  have f: "case filled of Inl e \<Rightarrow> e = BucketOutOfRange | Inr s' \<Rightarrow> fill_inv ?w ?h s'"
    unfolding filled_def
    by (rule Kruskals_fill_cases) (simp_all add: fill_inv_def maze_inv_full_grid edges_adjacent_def wh [simplified])
  have g: "KruskalsGenerator width height mt =
             and_then filled (\<lambda>s. and_then (Kruskals_loop (fst s, mt, fst (snd s), fst (snd (snd s))))
               (\<lambda>m. Inr (Some m)))"
    using False by (simp add: KruskalsGenerator_def Grid_eq W H filled_def)
  show ?thesis
  proof (cases filled)
    case (Inl e)
    then show ?thesis using f g by simp
  next
    case (Inr s)
    then have "loop_inv ?w ?h (fst s, mt, fst (snd s), fst (snd (snd s)))"
      using f by (simp add: fill_inv_def loop_inv_def)
    then have l: "case Kruskals_loop (fst s, mt, fst (snd s), fst (snd (snd s))) of
                 Inl e \<Rightarrow> e = BucketOutOfRange | Inr m \<Rightarrow> maze_inv ?w ?h m"
      by (rule Kruskals_loop_cases)
    have v: "width \<noteq> 0 \<and> height \<noteq> 0" using False by simp
    show ?thesis
    proof (cases "Kruskals_loop (fst s, mt, fst (snd s), fst (snd (snd s)))")
      case (Inl e)
      then show ?thesis using l by (simp add: g Inr)
    next
      case r: (Inr m)
      then show ?thesis using l v by (simp add: g Inr)
    qed
  qed
qed

section \<open>Claims about the grid\<close>

text \<open>
  Claim C8. \<^verbatim>\<open>Connect\<close> and \<^verbatim>\<open>Disconnect\<close> are idempotent: on every grid and for all
  cells \<open>a\<close> and \<open>b\<close>, calling \<^verbatim>\<open>Connect(a, b)\<close> twice gives the grid that one call gives,
  and so does calling \<^verbatim>\<open>Disconnect(a, b)\<close> twice; disconnecting a pair that is not
  connected changes nothing.
\<close>

theorem Connect_Disconnect_idempotent:
  "Connect (Connect g a b) a b = Connect g a b \<and>
   Disconnect (Disconnect g a b) a b = Disconnect g a b \<and>
   (b \<notin> connectedCells (cells g a) \<and> a \<notin> connectedCells (cells g b) \<longrightarrow> Disconnect g a b = g)"
proof (intro conjI impI)
  show "Connect (Connect g a b) a b = Connect g a b"
    by (rule Grid_eqI) (auto simp: connectedCells_Connect)
  show "Disconnect (Disconnect g a b) a b = Disconnect g a b"
    by (rule Grid_eqI) (auto simp: connectedCells_Disconnect)
  assume "b \<notin> connectedCells (cells g a) \<and> a \<notin> connectedCells (cells g b)"
  then show "Disconnect g a b = g"
    by (intro Grid_eqI) (auto simp: connectedCells_Disconnect)
qed

text \<open>The theorem at the empty 2 x 2 grid and the cells (0, 0) and (0, 1).\<close>

theorem Connect_Disconnect_idempotent_witness:
  "Disconnect (full_grid () False 2 2) (0, 0) (0, 1) = full_grid () False 2 2 \<and>
   Connect (Connect (full_grid () False 2 2) (0, 0) (0, 1)) (0, 0) (0, 1)
     = Connect (full_grid () False 2 2) (0, 0) (0, 1)"
  using Connect_Disconnect_idempotent [of "full_grid () False 2 2" "(0, 0)" "(0, 1)"]
  by (simp add: full_grid_def)

text \<open>
  Claim C7. Symmetry is an invariant of the grid: the grid that the constructor builds
  (pre-connected or not) is symmetric, and \<^verbatim>\<open>Connect\<close> of a pair, \<^verbatim>\<open>Connect\<close> of a
  cell to a list of neighbours, \<^verbatim>\<open>Disconnect\<close>, \<^verbatim>\<open>DisconnectRow\<close> and
  \<^verbatim>\<open>DisconnectCol\<close> turn a symmetric grid into a symmetric grid. So at all times a cell
  \<open>a\<close> is in the connection set of \<open>b\<close> if and only if \<open>b\<close> is in the connection set of \<open>a\<close>.
\<close>

theorem symmetry_invariant:
  "(\<exists>g. Grid i0 width height isConnected = Inr g \<and> symmetric g) \<and>
   (symmetric g \<longrightarrow>
      symmetric (Connect g a b) \<and>
      symmetric (Connect_neighbours g a neighbours) \<and>
      symmetric (Disconnect g a b) \<and>
      (\<forall>g'. DisconnectRow g origin idx w pathIdx = Inr g' \<longrightarrow> symmetric g') \<and>
      (\<forall>g'. DisconnectCol g origin idx h pathIdx = Inr g' \<longrightarrow> symmetric g'))"
proof (intro conjI impI allI)
  show "\<exists>g. Grid i0 width height isConnected = Inr g \<and> symmetric g"
    by (simp add: Grid_eq symmetric_full_grid)
next
  assume "symmetric g"
  then show "symmetric (Connect g a b)" by (rule symmetric_Connect)
next
  assume "symmetric g"
  then show "symmetric (Connect_neighbours g a neighbours)" by (rule symmetric_Connect_neighbours)
next
  assume "symmetric g"
  then show "symmetric (Disconnect g a b)" by (rule symmetric_Disconnect)
next
  fix g' assume "symmetric g" "DisconnectRow g origin idx w pathIdx = Inr g'"
  then show "symmetric g'" using symmetric_DisconnectRow by blast
next
  fix g' assume "symmetric g" "DisconnectCol g origin idx h pathIdx = Inr g'"
  then show "symmetric g'" using symmetric_DisconnectCol by blast
qed

text \<open>The theorem at the pre-connected 2 x 2 grid.\<close>

theorem symmetry_invariant_witness:
  "symmetric (Connect (full_grid () True 2 2) (0, 0) (1, 1)) \<and>
   symmetric (Connect_neighbours (full_grid () True 2 2) (0, 0) [(1, 1), (0, 1)]) \<and>
   symmetric (Disconnect (full_grid () True 2 2) (0, 0) (0, 1)) \<and>
   DisconnectRow (full_grid () True 2 2) (0, 0) 0 2 0
     = Inr (Disconnect (full_grid () True 2 2) (1, 0) (1, 1)) \<and>
   symmetric (Disconnect (full_grid () True 2 2) (1, 0) (1, 1))"
proof -
  have r: "DisconnectRow (full_grid () True 2 2) (0, 0) 0 2 0
             = Inr (Disconnect (full_grid () True 2 2) (1, 0) (1, 1))"
    by (simp add: DisconnectRow_def upt_rec cell_at_def full_grid_def grid_data_def)
  show ?thesis
    using symmetry_invariant [of "()" 2 2 True "full_grid () True 2 2" "(0, 0)" "(1, 1)"
        "[(1, 1), (0, 1)]" "(0, 0)" 0 2 0 2]
      symmetry_invariant [of "()" 2 2 True "full_grid () True 2 2" "(0, 0)" "(0, 1)"
        "[(1, 1), (0, 1)]" "(0, 0)" 0 2 0 2]
      symmetric_full_grid [of "()" True 2 2] r
    by simp
qed

text \<open>
  Claim C5. \<^verbatim>\<open>DisconnectRow\<close> and \<^verbatim>\<open>DisconnectCol\<close> should sever every pair along the
  wall but the one at \<^verbatim>\<open>pathIdx\<close>, for every width and height of the sub-region up to the
  dimensions of the grid. Their parameters are 8-bit, so a width or height of 256 arrives as
  0: on the pre-connected grid of 256 columns and 2 rows, \<^verbatim>\<open>DisconnectRow\<close> with origin
  (0, 0), row 0, width 256 and the gap at 0 returns the grid as it was, with the cells (1, 0)
  and (1, 1) still connected; likewise \<^verbatim>\<open>DisconnectCol\<close> with height 256 on the grid of 2
  columns and 256 rows.
\<close>

theorem Disconnect_256_severs_nothing:
  "and_then (Grid () 256 2 True)
     (\<lambda>g. DisconnectRow g (0, 0) (of_nat 0) (of_nat 256) (of_nat 0)) = Grid () 256 2 True \<and>
   and_then (Grid () 256 2 True)
     (\<lambda>g. Inr ((1, 1) \<in> connectedCells (cells g (1, 0)))) = Inr True \<and>
   and_then (Grid () 2 256 True)
     (\<lambda>g. DisconnectCol g (0, 0) (of_nat 0) (of_nat 256) (of_nat 0)) = Grid () 2 256 True \<and>
   and_then (Grid () 2 256 True)
     (\<lambda>g. Inr ((1, 1) \<in> connectedCells (cells g (0, 1)))) = Inr True"
  by (simp add: Grid_eq DisconnectRow_def DisconnectCol_def full_grid_def adjacent_def in_grid_def)


section \<open>Claims about the generators\<close>

text \<open>
  Two layouts of the cells in memory, for the runs below: in \<open>heap_ascending\<close> the cells lie
  in the order in which \<^verbatim>\<open>Init\<close> allocates them (column after column), in
  \<open>heap_descending\<close> in the opposite order, as an allocator that hands out freed chunks
  last-freed-first can place them.
\<close>

definition heap_ascending :: "Cell_ptr \<Rightarrow> nat" where
  "heap_ascending c = fst c * 2 ^ 32 + snd c"

definition heap_descending :: "Cell_ptr \<Rightarrow> nat" where
  "heap_descending c = 2 ^ 64 - (fst c * 2 ^ 32 + snd c)"

text \<open>
  The first values that \<^verbatim>\<open>std::mt19937\<close> returns after it was seeded with 0 and with 5489,
  followed by any stream \<open>rest\<close>: a statement that holds for every \<open>rest\<close> is about a run
  that draws no more values than the ones listed.
\<close>

definition mt19937_0 :: "mt19937 \<Rightarrow> mt19937" where
  "mt19937_0 rest i =
     (if i < 12 then [2357136044, 2546248239, 3071714933, 3626093760, 2588848963, 3684848379,
                      2340255427, 3638918503, 1819583497, 2678185683, 2774094101, 1650906866] ! i
      else rest (i - 12))"

definition mt19937_5489 :: "mt19937 \<Rightarrow> mt19937" where
  "mt19937_5489 rest i =
     (if i < 6 then [3499211612, 581869302, 3890346734, 3586334585, 545404204, 4161255391] ! i
      else rest (i - 6))"

text \<open>The connection set of the cell \<open>c\<close> in the maze a generator returned.\<close>

definition connections ::
  "Cell_ptr \<Rightarrow> error + 'i Grid option \<Rightarrow> error + Cell_ptr set option" where
  "connections c r = map_sum id (map_option (\<lambda>m. connectedCells (cells m c))) r"

lemma cells_full_grid [simp]:
  "info (cells (full_grid i0 c w h) p) = i0"
  "connectedCells (cells (full_grid i0 c w h) p)
     = (if c then {q. adjacent p q \<and> in_grid w h p \<and> in_grid w h q} else {})"
  by (simp_all add: full_grid_def)

lemma Width_Height_maze_inv:
  assumes "maze_inv (unat width) (unat height) m" "width \<noteq> 0"
  shows "Width m = width \<and> Height m = height"
proof -
  have d: "data m = grid_data (unat width) (unat height)" using assms(1) by (simp add: maze_inv_def)
  have "0 < unat width" using assms(2) by (simp add: unat_gt_0)
  then show ?thesis by (simp add: Width_def Height_def d grid_data_def)
qed

lemma Width_Height_full_grid:
  "Width (full_grid i0 c (unat width) (unat height)) = width \<and>
   Height (full_grid i0 c (unat width) (unat height)) = (if width = 0 then 0 else height)"
proof (cases "width = 0")
  case True
  then show ?thesis by (simp add: Width_def Height_def grid_data_def)
next
  case False
  then have "0 < unat width" by (simp add: unat_gt_0)
  then show ?thesis using False by (simp add: Width_def Height_def grid_data_def)
qed

lemma maze_inv_adjacent:
  assumes "maze_inv w h m" "b \<in> connectedCells (cells m a)"
  shows "\<bar>int (fst a) - int (fst b)\<bar> + \<bar>int (snd a) - int (snd b)\<bar> = 1 \<and> a \<noteq> b"
proof -
  have "adjacent_only m" using assms(1) by (simp add: maze_inv_def)
  then have "adjacent a b" using assms(2) unfolding adjacent_only_def by blast
  then show ?thesis using adjacent_irrefl by (auto simp: adjacent_def)
qed

text \<open>Runs of the five generators on the grid of two columns and one row.\<close>

lemmas run_defs =
  Grid_eq cell_at_def grid_data_def Width_def Height_def upt_rec mt_next_def Let_def
  info_write_info connectedCells_Connect connectedCells_Disconnect

lemma mod_Suc_Suc_0: "n mod Suc (Suc 0) = n mod 2"
  by (simp only: numeral_2_eq_2 One_nat_def)

lemma mod_Suc_Suc_Suc_0: "n mod Suc (Suc (Suc 0)) = n mod 3"
  by (simp only: numeral_3_eq_3 One_nat_def)

lemmas run_mod = mod_Suc_Suc_0 mod_Suc_Suc_Suc_0

lemma BinaryTree_2_1:
  "\<exists>m. BinaryTreeGenerator 2 1 (\<lambda>i. 0) = Inr (Some m) \<and> connectedCells (cells m (0, 0)) = {(1, 0)}"
  by (simp add: BinaryTreeGenerator_def BinaryTree_cell_def BinaryTree_GetNeighbours_def run_defs)

lemma Sidewinder_2_1:
  "\<exists>m. SidewinderGenerator heap_ascending 2 1 (\<lambda>i. 0) = Inr (Some m)
         \<and> connectedCells (cells m (0, 0)) = {(1, 0)}"
  by (simp add: SidewinderGenerator_def Sidewinder_cell_def run_defs)

lemma Prims_2_1:
  "\<exists>m. PrimsGenerator heap_ascending 2 1 (0, 0) (\<lambda>i. 0) = Inr (Some m)
         \<and> connectedCells (cells m (0, 0)) = {(1, 0)}"
  by (simp add: PrimsGenerator_def Prims_step_def Prims_GetNeighbours_def Prims_push_def
        heap_ascending_def run_defs)

lemma Kruskals_2_1:
  "\<exists>m. KruskalsGenerator 2 1 (\<lambda>i. 0) = Inr (Some m) \<and> connectedCells (cells m (0, 0)) = {(1, 0)}"
  by (simp add: KruskalsGenerator_def Kruskals_fill_cell_def Kruskals_step_def MergeBucket_def
        Edge_less_def run_defs)

lemma RecursiveDivision_2_1:
  "\<exists>m. RecursiveDivisionGenerator 2 1 (\<lambda>i. 0) = Inr (Some m)
         \<and> connectedCells (cells m (0, 0)) = {(1, 0)}"
proof -
  have r: "RecursiveDivisionGenerator 2 1 (\<lambda>i. 0)
             = Inr (Some (full_grid \<lparr>isVisited = False\<rparr> True 2 1))"
    by (simp add: RecursiveDivisionGenerator_def Grid_eq)
  have "connectedCells (cells (full_grid \<lparr>isVisited = False\<rparr> True 2 1) (0, 0))
          = {q. adjacent (0, 0) q \<and> in_grid 2 1 (0, 0) \<and> in_grid 2 1 q}"
    by (simp only: cells_full_grid if_True)
  also have "\<dots> = {(1, 0)}"
    by (auto simp: adjacent_cases in_grid_def)
  finally show ?thesis using r by blast
qed

text \<open>
  Claim C6, as stated, fails: \<^verbatim>\<open>Grid(5, 0)\<close> is empty (no cell), yet \<^verbatim>\<open>Width()\<close> returns 5, not
  0; and \<^verbatim>\<open>Grid(0, 5)\<close> returns 0 for \<^verbatim>\<open>Height()\<close>, not the configured 5.
\<close>

theorem Width_Height_counterexample:
  "map_sum id (\<lambda>g. (Width g, Height g)) (Grid () 5 0 False) = Inr (5, 0) \<and>
   map_sum id (\<lambda>g. (Width g, Height g)) (Grid () 0 5 False) = Inr (0, 0)"
  by (simp add: Grid_eq Width_def Height_def grid_data_def)

text \<open>
  Claim C6, amended. For every constructed \<^verbatim>\<open>Grid(width, height)\<close>, \<^verbatim>\<open>Width()\<close> returns
  \<open>width\<close>, and \<^verbatim>\<open>Height()\<close> returns \<open>height\<close> when \<open>width\<close> is not 0 and 0 when it is; and
  every maze returned by a generator has \<^verbatim>\<open>Width() == width\<close> and
  \<^verbatim>\<open>Height() == height\<close>.
\<close>

theorem Width_Height_configured:
  "(\<exists>g. Grid i0 width height c = Inr g \<and> Width g = width \<and>
         Height g = (if width = 0 then 0 else height)) \<and>
   (BinaryTreeGenerator width height mt = Inr (Some m1) \<longrightarrow>
      Width m1 = width \<and> Height m1 = height) \<and>
   (SidewinderGenerator addr width height mt = Inr (Some m2) \<longrightarrow>
      Width m2 = width \<and> Height m2 = height) \<and>
   (PrimsGenerator addr width height startPoint mt = Inr (Some m3) \<longrightarrow>
      Width m3 = width \<and> Height m3 = height) \<and>
   (KruskalsGenerator width height mt = Inr (Some m4) \<longrightarrow>
      Width m4 = width \<and> Height m4 = height) \<and>
   (RecursiveDivisionGenerator width height mt = Inr (Some m5) \<longrightarrow>
      Width m5 = width \<and> Height m5 = height)"
proof (intro conjI impI)
  show "\<exists>g. Grid i0 width height c = Inr g \<and> Width g = width \<and>
         Height g = (if width = 0 then 0 else height)"
    using Width_Height_full_grid [of i0 c width height] by (simp add: Grid_eq)
next
  assume a: "BinaryTreeGenerator width height mt = Inr (Some m1)"
  then have v: "width \<noteq> 0" "height \<noteq> 0" by (auto simp: BinaryTreeGenerator_def split: if_splits)
  then have "maze_inv (unat width) (unat height) m1"
    using BinaryTreeGenerator_inv [OF v, of mt] a by simp
  then show "Width m1 = width" "Height m1 = height" using Width_Height_maze_inv v by blast+
next
  assume a: "SidewinderGenerator addr width height mt = Inr (Some m2)"
  then have v: "width \<noteq> 0" "height \<noteq> 0" by (auto simp: SidewinderGenerator_def split: if_splits)
  then have "maze_inv (unat width) (unat height) m2"
    using SidewinderGenerator_inv [OF v, of addr mt] a by simp
  then show "Width m2 = width" "Height m2 = height" using Width_Height_maze_inv v by blast+
next
  assume a: "PrimsGenerator addr width height startPoint mt = Inr (Some m3)"
  then have v: "width \<noteq> 0" "height \<noteq> 0" "fst startPoint < width" "snd startPoint < height"
    by (auto simp: PrimsGenerator_def not_le split: if_splits)
  then have "maze_inv (unat width) (unat height) m3"
    using PrimsGenerator_inv [OF v, of addr mt] a by simp
  then show "Width m3 = width" "Height m3 = height" using Width_Height_maze_inv v by blast+
next
  assume a: "KruskalsGenerator width height mt = Inr (Some m4)"
  then have "width \<noteq> 0 \<and> height \<noteq> 0 \<and> maze_inv (unat width) (unat height) m4"
    using KruskalsGenerator_cases [of width height mt] by simp
  then show "Width m4 = width" "Height m4 = height" using Width_Height_maze_inv by blast+
next
  assume a: "RecursiveDivisionGenerator width height mt = Inr (Some m5)"
  then have v: "width \<noteq> 0" "height \<noteq> 0"
    by (auto simp: RecursiveDivisionGenerator_def split: if_splits)
  then have "maze_inv (unat width) (unat height) m5"
    using RecursiveDivisionGenerator_inv [OF v, of mt] a by simp
  then show "Width m5 = width" "Height m5 = height" using Width_Height_maze_inv v by blast+
qed


text \<open>The theorem at the mazes the five generators return for width 2 and height 1.\<close>

theorem Width_Height_configured_witness:
  "(\<exists>m. BinaryTreeGenerator 2 1 (\<lambda>i. 0) = Inr (Some m) \<and> Width m = 2 \<and> Height m = 1) \<and>
   (\<exists>m. SidewinderGenerator heap_ascending 2 1 (\<lambda>i. 0) = Inr (Some m)
         \<and> Width m = 2 \<and> Height m = 1) \<and>
   (\<exists>m. PrimsGenerator heap_ascending 2 1 (0, 0) (\<lambda>i. 0) = Inr (Some m)
         \<and> Width m = 2 \<and> Height m = 1) \<and>
   (\<exists>m. KruskalsGenerator 2 1 (\<lambda>i. 0) = Inr (Some m) \<and> Width m = 2 \<and> Height m = 1) \<and>
   (\<exists>m. RecursiveDivisionGenerator 2 1 (\<lambda>i. 0) = Inr (Some m) \<and> Width m = 2 \<and> Height m = 1)"
proof -
  obtain m1 where 1: "BinaryTreeGenerator 2 1 (\<lambda>i. 0) = Inr (Some m1)"
    using BinaryTree_2_1 by blast
  obtain m2 where 2: "SidewinderGenerator heap_ascending 2 1 (\<lambda>i. 0) = Inr (Some m2)"
    using Sidewinder_2_1 by blast
  obtain m3 where 3: "PrimsGenerator heap_ascending 2 1 (0, 0) (\<lambda>i. 0) = Inr (Some m3)"
    using Prims_2_1 by blast
  obtain m4 where 4: "KruskalsGenerator 2 1 (\<lambda>i. 0) = Inr (Some m4)"
    using Kruskals_2_1 by blast
  obtain m5 where 5: "RecursiveDivisionGenerator 2 1 (\<lambda>i. 0) = Inr (Some m5)"
    using RecursiveDivision_2_1 by blast
  show ?thesis
    using Width_Height_configured [of "()" 2 1 False "\<lambda>i. 0" m1 heap_ascending m2 "(0, 0)" m3 m4 m5]
    by (simp only: 1 2 3 4 5 simp_thms sum.inject option.inject ex_simps)
qed

text \<open>
  Claim C9. Every connection in a maze returned by a generator links two orthogonally
  adjacent cells: if \<open>b\<close> is in the connection set of \<open>a\<close> then
  \<open>|a.x - b.x| + |a.y - b.y| = 1\<close>, so no cell is connected to itself or to a cell that is not
  its neighbour.
\<close>

theorem connections_link_adjacent_cells:
  "(BinaryTreeGenerator width height mt = Inr (Some m1) \<and> b1 \<in> connectedCells (cells m1 a1) \<longrightarrow>
      \<bar>int (fst a1) - int (fst b1)\<bar> + \<bar>int (snd a1) - int (snd b1)\<bar> = 1 \<and> a1 \<noteq> b1) \<and>
   (SidewinderGenerator addr width height mt = Inr (Some m2) \<and> b2 \<in> connectedCells (cells m2 a2) \<longrightarrow>
      \<bar>int (fst a2) - int (fst b2)\<bar> + \<bar>int (snd a2) - int (snd b2)\<bar> = 1 \<and> a2 \<noteq> b2) \<and>
   (PrimsGenerator addr width height startPoint mt = Inr (Some m3)
      \<and> b3 \<in> connectedCells (cells m3 a3) \<longrightarrow>
      \<bar>int (fst a3) - int (fst b3)\<bar> + \<bar>int (snd a3) - int (snd b3)\<bar> = 1 \<and> a3 \<noteq> b3) \<and>
   (KruskalsGenerator width height mt = Inr (Some m4) \<and> b4 \<in> connectedCells (cells m4 a4) \<longrightarrow>
      \<bar>int (fst a4) - int (fst b4)\<bar> + \<bar>int (snd a4) - int (snd b4)\<bar> = 1 \<and> a4 \<noteq> b4) \<and>
   (RecursiveDivisionGenerator width height mt = Inr (Some m5)
      \<and> b5 \<in> connectedCells (cells m5 a5) \<longrightarrow>
      \<bar>int (fst a5) - int (fst b5)\<bar> + \<bar>int (snd a5) - int (snd b5)\<bar> = 1 \<and> a5 \<noteq> b5)"
proof (intro conjI impI; elim conjE)
  assume a: "BinaryTreeGenerator width height mt = Inr (Some m1)"
    and c: "b1 \<in> connectedCells (cells m1 a1)"
  from a have v: "width \<noteq> 0" "height \<noteq> 0"
    by (auto simp: BinaryTreeGenerator_def split: if_splits)
  then have "maze_inv (unat width) (unat height) m1"
    using BinaryTreeGenerator_inv [OF v, of mt] a by simp
  then show "\<bar>int (fst a1) - int (fst b1)\<bar> + \<bar>int (snd a1) - int (snd b1)\<bar> = 1" "a1 \<noteq> b1"
    using maze_inv_adjacent c by blast+
next
  assume a: "SidewinderGenerator addr width height mt = Inr (Some m2)"
    and c: "b2 \<in> connectedCells (cells m2 a2)"
  from a have v: "width \<noteq> 0" "height \<noteq> 0"
    by (auto simp: SidewinderGenerator_def split: if_splits)
  then have "maze_inv (unat width) (unat height) m2"
    using SidewinderGenerator_inv [OF v, of addr mt] a by simp
  then show "\<bar>int (fst a2) - int (fst b2)\<bar> + \<bar>int (snd a2) - int (snd b2)\<bar> = 1" "a2 \<noteq> b2"
    using maze_inv_adjacent c by blast+
next
  assume a: "PrimsGenerator addr width height startPoint mt = Inr (Some m3)"
    and c: "b3 \<in> connectedCells (cells m3 a3)"
  from a have v: "width \<noteq> 0" "height \<noteq> 0" "fst startPoint < width" "snd startPoint < height"
    by (auto simp: PrimsGenerator_def not_le split: if_splits)
  then have "maze_inv (unat width) (unat height) m3"
    using PrimsGenerator_inv [OF v, of addr mt] a by simp
  then show "\<bar>int (fst a3) - int (fst b3)\<bar> + \<bar>int (snd a3) - int (snd b3)\<bar> = 1" "a3 \<noteq> b3"
    using maze_inv_adjacent c by blast+
next
  assume a: "KruskalsGenerator width height mt = Inr (Some m4)"
    and c: "b4 \<in> connectedCells (cells m4 a4)"
  from a have "maze_inv (unat width) (unat height) m4"
    using KruskalsGenerator_cases [of width height mt] by simp
  then show "\<bar>int (fst a4) - int (fst b4)\<bar> + \<bar>int (snd a4) - int (snd b4)\<bar> = 1" "a4 \<noteq> b4"
    using maze_inv_adjacent c by blast+
next
  assume a: "RecursiveDivisionGenerator width height mt = Inr (Some m5)"
    and c: "b5 \<in> connectedCells (cells m5 a5)"
  from a have v: "width \<noteq> 0" "height \<noteq> 0"
    by (auto simp: RecursiveDivisionGenerator_def split: if_splits)
  then have "maze_inv (unat width) (unat height) m5"
    using RecursiveDivisionGenerator_inv [OF v, of mt] a by simp
  then show "\<bar>int (fst a5) - int (fst b5)\<bar> + \<bar>int (snd a5) - int (snd b5)\<bar> = 1" "a5 \<noteq> b5"
    using maze_inv_adjacent c by blast+
qed

text \<open>
  The theorem at the mazes the five generators return for width 2 and height 1, where the
  cells (0, 0) and (1, 0) are connected.
\<close>

theorem connections_link_adjacent_cells_witness:
  "(\<exists>m. BinaryTreeGenerator 2 1 (\<lambda>i. 0) = Inr (Some m)
         \<and> (1, 0) \<in> connectedCells (cells m (0, 0))) \<and>
   (\<exists>m. SidewinderGenerator heap_ascending 2 1 (\<lambda>i. 0) = Inr (Some m)
         \<and> (1, 0) \<in> connectedCells (cells m (0, 0))) \<and>
   (\<exists>m. PrimsGenerator heap_ascending 2 1 (0, 0) (\<lambda>i. 0) = Inr (Some m)
         \<and> (1, 0) \<in> connectedCells (cells m (0, 0))) \<and>
   (\<exists>m. KruskalsGenerator 2 1 (\<lambda>i. 0) = Inr (Some m)
         \<and> (1, 0) \<in> connectedCells (cells m (0, 0))) \<and>
   (\<exists>m. RecursiveDivisionGenerator 2 1 (\<lambda>i. 0) = Inr (Some m)
         \<and> (1, 0) \<in> connectedCells (cells m (0, 0))) \<and>
   \<bar>int (fst (0 :: nat, 0 :: nat)) - int (fst (1 :: nat, 0 :: nat))\<bar>
     + \<bar>int (snd (0 :: nat, 0 :: nat)) - int (snd (1 :: nat, 0 :: nat))\<bar> = 1 \<and>
   (0 :: nat, 0 :: nat) \<noteq> (1, 0)"
proof -
  obtain m1 where 1: "BinaryTreeGenerator 2 1 (\<lambda>i. 0) = Inr (Some m1)"
    "(1, 0) \<in> connectedCells (cells m1 (0, 0))"
    using BinaryTree_2_1 by auto
  obtain m2 where 2: "SidewinderGenerator heap_ascending 2 1 (\<lambda>i. 0) = Inr (Some m2)"
    "(1, 0) \<in> connectedCells (cells m2 (0, 0))"
    using Sidewinder_2_1 by auto
  obtain m3 where 3: "PrimsGenerator heap_ascending 2 1 (0, 0) (\<lambda>i. 0) = Inr (Some m3)"
    "(1, 0) \<in> connectedCells (cells m3 (0, 0))"
    using Prims_2_1 by auto
  obtain m4 where 4: "KruskalsGenerator 2 1 (\<lambda>i. 0) = Inr (Some m4)"
    "(1, 0) \<in> connectedCells (cells m4 (0, 0))"
    using Kruskals_2_1 by auto
  obtain m5 where 5: "RecursiveDivisionGenerator 2 1 (\<lambda>i. 0) = Inr (Some m5)"
    "(1, 0) \<in> connectedCells (cells m5 (0, 0))"
    using RecursiveDivision_2_1 by auto
  have "\<bar>int (fst (0 :: nat, 0 :: nat)) - int (fst (1 :: nat, 0 :: nat))\<bar>
     + \<bar>int (snd (0 :: nat, 0 :: nat)) - int (snd (1 :: nat, 0 :: nat))\<bar> = 1 \<and>
   (0 :: nat, 0 :: nat) \<noteq> (1, 0)"
    using connections_link_adjacent_cells [of 2 1 "\<lambda>i. 0" m1 "(1, 0)" "(0, 0)"
        heap_ascending m2 "(1, 0)" "(0, 0)" "(0, 0)" m3 "(1, 0)" "(0, 0)" m4 "(1, 0)" "(0, 0)"
        m5 "(1, 0)" "(0, 0)"] 1 2 3 4 5
    by blast
  then show ?thesis using 1 2 3 4 5 by blast
qed

text \<open>
  Claim C10. Every access \<^verbatim>\<open>maze[x][y]\<close> made during generation is in bounds: no
  generator ever reaches the error \<open>CellOutOfRange\<close>, whatever its arguments. The binary tree,
  sidewinder, Prim's and recursive division generators reach no error at all; Kruskal's
  generator can only leave its bucket vector.
\<close>

theorem grid_indexing_in_bounds:
  "BinaryTreeGenerator width height mt \<noteq> Inl e \<and>
   SidewinderGenerator addr width height mt \<noteq> Inl e \<and>
   PrimsGenerator addr width height startPoint mt \<noteq> Inl e \<and>
   RecursiveDivisionGenerator width height mt \<noteq> Inl e \<and>
   KruskalsGenerator width height mt \<noteq> Inl CellOutOfRange"
proof (intro conjI)
  show "BinaryTreeGenerator width height mt \<noteq> Inl e"
  proof (cases "width \<noteq> 0 \<and> height \<noteq> 0")
    case True
    then show ?thesis using BinaryTreeGenerator_inv [of width height mt] by auto
  next
    case False
    then show ?thesis by (auto simp: BinaryTreeGenerator_def)
  qed
  show "SidewinderGenerator addr width height mt \<noteq> Inl e"
  proof (cases "width \<noteq> 0 \<and> height \<noteq> 0")
    case True
    then show ?thesis using SidewinderGenerator_inv [of width height addr mt] by auto
  next
    case False
    then show ?thesis by (auto simp: SidewinderGenerator_def)
  qed
  show "PrimsGenerator addr width height startPoint mt \<noteq> Inl e"
  proof (cases "width \<noteq> 0 \<and> height \<noteq> 0 \<and> fst startPoint < width \<and> snd startPoint < height")
    case True
    then show ?thesis using PrimsGenerator_inv [of width height startPoint addr mt] by auto
  next
    case False
    then have "PrimsGenerator addr width height startPoint mt = Inr None"
      by (auto simp: PrimsGenerator_def not_less)
    then show ?thesis by simp
  qed
  show "RecursiveDivisionGenerator width height mt \<noteq> Inl e"
  proof (cases "width \<noteq> 0 \<and> height \<noteq> 0")
    case True
    then show ?thesis using RecursiveDivisionGenerator_inv [of width height mt] by auto
  next
    case False
    then show ?thesis by (auto simp: RecursiveDivisionGenerator_def)
  qed
  show "KruskalsGenerator width height mt \<noteq> Inl CellOutOfRange"
    using KruskalsGenerator_cases [of width height mt] by auto
qed

text \<open>
  Claim C3 says that two calls of a generator with the same width, height, start point and
  seed return mazes with the same connection sets. Prim's generator draws its next cell from
  \<^verbatim>\<open>pathSet\<close>, and the sidewinder generator its breach cell from \<^verbatim>\<open>runSet\<close>, by
  position in a \<^verbatim>\<open>std::set\<close> of \<^verbatim>\<open>std::shared_ptr<Cell>\<close>, which is ordered by the
  addresses of the cells. So the maze depends on where the allocator put the cells:
  \<^verbatim>\<open>PrimsGenerator()(2, 2)\<close> (start (0, 0), seed 0) connects the cell (0, 0) to (0, 1) and
  (1, 0) when the addresses ascend in allocation order and to (0, 1) alone when they descend;
  \<^verbatim>\<open>SidewinderGenerator()(2, 2, 5489)\<close> connects it to (0, 1) and (1, 0) in the first
  layout and to (1, 0) alone in the second.
\<close>

theorem heap_layout_changes_maze:
  "connections (0, 0) (PrimsGenerator heap_ascending 2 2 (0, 0) (mt19937_0 rest))
     = Inr (Some {(0, 1), (1, 0)}) \<and>
   connections (0, 0) (PrimsGenerator heap_descending 2 2 (0, 0) (mt19937_0 rest))
     = Inr (Some {(0, 1)}) \<and>
   connections (0, 0) (SidewinderGenerator heap_ascending 2 2 (mt19937_5489 rest))
     = Inr (Some {(0, 1), (1, 0)}) \<and>
   connections (0, 0) (SidewinderGenerator heap_descending 2 2 (mt19937_5489 rest))
     = Inr (Some {(1, 0)})"
proof (intro conjI)
  show "connections (0, 0) (PrimsGenerator heap_ascending 2 2 (0, 0) (mt19937_0 rest))
          = Inr (Some {(0, 1), (1, 0)})"
    by (simp add: connections_def PrimsGenerator_def Prims_step_def Prims_GetNeighbours_def
          Prims_push_def heap_ascending_def run_defs mt19937_0_def run_mod)
  show "connections (0, 0) (PrimsGenerator heap_descending 2 2 (0, 0) (mt19937_0 rest))
          = Inr (Some {(0, 1)})"
    by (simp add: connections_def PrimsGenerator_def Prims_step_def Prims_GetNeighbours_def
          Prims_push_def heap_descending_def run_defs mt19937_0_def run_mod)
  show "connections (0, 0) (SidewinderGenerator heap_ascending 2 2 (mt19937_5489 rest))
          = Inr (Some {(0, 1), (1, 0)})"
    by (simp add: connections_def SidewinderGenerator_def Sidewinder_cell_def
          heap_ascending_def run_defs mt19937_5489_def run_mod)
  show "connections (0, 0) (SidewinderGenerator heap_descending 2 2 (mt19937_5489 rest))
          = Inr (Some {(1, 0)})"
    by (simp add: connections_def SidewinderGenerator_def Sidewinder_cell_def
          heap_descending_def run_defs mt19937_5489_def run_mod)
qed

text \<open>
  The recursive division generator on 256 columns and 2 rows, seed 0. The first value drawn
  is even, so the room is cut by a horizontal wall below row 0; \<^verbatim>\<open>DisconnectRow\<close> receives
  the width 256 as 0 and severs nothing, and the two rooms of one row are left as they are.
\<close>

lemma RecursiveDivision_256_2:
  "RecursiveDivisionGenerator 256 2 (mt19937_0 rest)
     = Inr (Some (full_grid \<lparr>isVisited = False\<rparr> True 256 2))"
proof -
  let ?g = "full_grid \<lparr>isVisited = False\<rparr> True 256 2"
  have 1: "Compute mt ?g origin 256 1 = Inr (?g, mt)" for mt origin
    by (subst Compute.simps) simp
  have 2: "unat (mt19937_0 rest 0) mod 2 = 0" by (simp add: mt19937_0_def)
  have "Compute (mt19937_0 rest) ?g (0, 0) 256 2
          = Inr (?g, mt_next (mt_next (mt_next (mt19937_0 rest))))"
    by (subst Compute.simps) (simp add: 2 1 DisconnectRow_def Let_def)
  then show ?thesis by (simp add: RecursiveDivisionGenerator_def Grid_eq)
qed

text \<open>
  Claim C1 says that every generator returns a perfect maze on every valid input: connected
  and without a cycle. \<^verbatim>\<open>RecursiveDivisionGenerator()(256, 2)\<close> (seed 0) returns the grid
  with every pair of neighbours still connected; the cells (0, 0), (1, 0), (1, 1) and
  (0, 1) lie on a cycle.
\<close>

theorem RecursiveDivision_256_2_cycle:
  "connections (0, 0) (RecursiveDivisionGenerator 256 2 (mt19937_0 rest))
     = Inr (Some {(1, 0), (0, 1)}) \<and>
   connections (1, 0) (RecursiveDivisionGenerator 256 2 (mt19937_0 rest))
     = Inr (Some {(2, 0), (1, 1), (0, 0)}) \<and>
   connections (1, 1) (RecursiveDivisionGenerator 256 2 (mt19937_0 rest))
     = Inr (Some {(2, 1), (0, 1), (1, 0)}) \<and>
   connections (0, 1) (RecursiveDivisionGenerator 256 2 (mt19937_0 rest))
     = Inr (Some {(1, 1), (0, 0)})"
  by (auto simp: RecursiveDivision_256_2 connections_def adjacent_cases in_grid_def)

text \<open>
  Claim C2 says that a generator returns no maze on a width or height below 1 (or a start
  point outside the grid) and a maze on every other input. Kruskal's generator sizes its
  bucket vector with \<^verbatim>\<open>height * width\<close>, a product of two \<^verbatim>\<open>uint32_t\<close>: for
  \<^verbatim>\<open>KruskalsGenerator()(65536, 65536)\<close> the product is 0, the vector is empty, and the
  first round of the fill loop writes to \<^verbatim>\<open>bucketCells[0]\<close>, outside of it. The call
  returns no maze, whatever the seed.
\<close>

theorem Kruskals_65536_leaves_buckets:
  "KruskalsGenerator 65536 65536 mt = Inl BucketOutOfRange"
proof -
  let ?g = "full_grid \<lparr>isVisited = False, bucketId = 0\<rparr> False 65536 65536"
  have w: "unat (Width ?g) = 65536" "unat (Height ?g) = 65536"
    by (simp_all add: Width_def Height_def grid_data_def)
  have u: "[0..<65536] = 0 # [Suc 0..<65536]" by (rule upt_conv_Cons) simp
  have c: "cell_at ?g 0 0 = Inr (0, 0)" by (simp add: cell_at_grid [of _ 65536 65536])
  have "Kruskals_fill_cell 0 0 (?g, [], replicate (unat (65536 * 65536 :: 32 word)) [], 0)
          = Inl BucketOutOfRange"
    by (simp add: Kruskals_fill_cell_def c)
  then show ?thesis
    by (simp add: KruskalsGenerator_def Grid_eq w u)
qed


end
